theory Spec2Isabelle
  imports Main "HOL-Library.AList"
begin

section \<open>Data model\<close>

text \<open>
  The application types of \<^verbatim>\<open>src/lib/types\<close>: a user profile, a comment and a post.
  A \<^verbatim>\<open>Date\<close> is its epoch time in milliseconds. The fields of the comment and of the
  post carry a prefix, since both records (and the user) share field names.
\<close>

record User =
  uid :: string
  email :: string
  displayName :: string
  photoURL :: string
  bio :: "string option"
  createdAt :: int
  updatedAt :: int

record Comment =
  comment_id :: string
  comment_postId :: string
  comment_authorId :: string
  comment_authorName :: string
  comment_authorPhotoURL :: string
  comment_content :: string
  comment_createdAt :: int

text \<open>
  A post, as typed by the application and as stored in the collection \<^verbatim>\<open>posts\<close>
  (the document id is kept in \<open>post_id\<close>). The stored document is untyped: the code
  tests \<^verbatim>\<open>postData.comments && Array.isArray(postData.comments)\<close> and
  \<^verbatim>\<open>post.comments?.forEach\<close>, so the comments array is optional here.
\<close>

record Post =
  post_id :: string
  post_authorId :: string
  post_authorName :: string
  post_authorPhotoURL :: string
  post_content :: string
  post_imageURL :: "string option"
  post_likes :: "string list"
  post_comments :: "Comment list option"
  post_createdAt :: int
  post_updatedAt :: int

text \<open>
  A date field of a stored user document is a store timestamp (with \<^verbatim>\<open>toDate\<close>),
  some other truthy value, or missing: the three cases of
  \<^verbatim>\<open>data.createdAt?.toDate?.() || data.createdAt || new Date()\<close>.
\<close>

datatype stored_date = Timestamp int | Plain int | Missing

record UserDoc =
  doc_uid :: string
  doc_email :: string
  doc_displayName :: string
  doc_photoURL :: string
  doc_bio :: "string option"
  doc_createdAt :: stored_date
  doc_updatedAt :: stored_date

text \<open>\<^verbatim>\<open>Partial<User>\<close>, the argument of \<^verbatim>\<open>updateUserProfile\<close>.\<close>

record UserPatch =
  patch_uid :: "string option"
  patch_email :: "string option"
  patch_displayName :: "string option"
  patch_photoURL :: "string option"
  patch_bio :: "string option"
  patch_createdAt :: "int option"
  patch_updatedAt :: "int option"

text \<open>An entry of the cache map: \<^verbatim>\<open>{ user: User; timestamp: number }\<close>.\<close>

record CacheEntry =
  user :: User
  timestamp :: int

section \<open>The store, the clock and the process state\<close>

text \<open>
  Every function of the source is \<^verbatim>\<open>async\<close> or runs inside one. The embedding runs
  each to its end on an explicit state: an awaited call is a call, and nothing else is
  interleaved at an \<^verbatim>\<open>await\<close>. A promise that is not awaited is kept in the state
  and settled by a function of its own. A thrown error or rejected promise is the left
  summand of the result.
\<close>

datatype error =
  NotInitialized   \<comment> \<open>\<^verbatim>\<open>Error("Firestore is not initialized")\<close>\<close>
  | StoreFailure   \<comment> \<open>a store round trip that rejects\<close>
  | NotFound       \<comment> \<open>an update of a document that does not exist\<close>
  | BatchCommitted \<comment> \<open>a write batch used after its commit\<close>

text \<open>One operation staged in a write batch: \<^verbatim>\<open>batch.update(ref, data)\<close>.\<close>

datatype batch_op =
  UpdateAuthor string string string int
    \<comment> \<open>document id, \<^verbatim>\<open>authorName\<close>, \<^verbatim>\<open>authorPhotoURL\<close>, \<^verbatim>\<open>updatedAt\<close>\<close>
  | UpdateComments string "Comment list"
    \<comment> \<open>document id, \<^verbatim>\<open>comments\<close>\<close>

text \<open>The round trips to the store, as the log of the state records them.\<close>

datatype store_call =
  GetDoc string string           \<comment> \<open>\<^verbatim>\<open>getDoc(doc(db, collection, id))\<close>\<close>
  | QueryUsersIn "string list"   \<comment> \<open>\<^verbatim>\<open>where("uid", "in", batch)\<close> on \<^verbatim>\<open>users\<close>\<close>
  | QueryPostsByAuthor string    \<comment> \<open>\<^verbatim>\<open>where("authorId", "==", uid)\<close> on \<^verbatim>\<open>posts\<close>\<close>
  | UpdateDoc string string      \<comment> \<open>\<^verbatim>\<open>updateDoc(doc(db, collection, id), data)\<close>\<close>
  | Commit "batch_op list"       \<comment> \<open>\<^verbatim>\<open>batch.commit()\<close>\<close>

text \<open>A promise that was started and is not awaited by the code that started it.\<close>

datatype promise = Repair string string string

text \<open>
  The state the functions run in. \<open>cache\<close> is the \<^verbatim>\<open>Map\<close> of the singleton
  \<^verbatim>\<open>userCache\<close>, in insertion order; \<open>db_ok\<close> says that the module variable
  \<^verbatim>\<open>db\<close> is not null; \<open>users\<close> is the collection \<^verbatim>\<open>users\<close> (document id and
  data) and \<open>posts\<close> the collection \<^verbatim>\<open>posts\<close>, both in the order the store returns
  documents. \<open>clock\<close> gives the value of the n-th reading of the system time
  (\<^verbatim>\<open>Date.now()\<close>, \<^verbatim>\<open>new Date()\<close>) and \<open>ticks\<close> counts the readings made;
  \<open>faults\<close> says which round trips to the store reject, by their position in the
  log \<open>calls\<close>. \<open>console\<close> holds the errors written by \<^verbatim>\<open>console.error\<close> and
  \<open>detached\<close> the promises started and not awaited.
\<close>

record world =
  cache :: "(string \<times> CacheEntry) list"
  db_ok :: bool
  users :: "(string \<times> UserDoc) list"
  posts :: "Post list"
  clock :: "nat \<Rightarrow> int"
  ticks :: nat
  faults :: "nat \<Rightarrow> bool"
  calls :: "store_call list"
  console :: "error list"
  detached :: "promise list"

definition date_now :: "world \<Rightarrow> int \<times> world" where
  "date_now s = (clock s (ticks s), s\<lparr>ticks := Suc (ticks s)\<rparr>)"

text \<open>A round trip: logged, and rejected when the fault plan says so.\<close>

definition round_trip :: "store_call \<Rightarrow> world \<Rightarrow> bool \<times> world" where
  "round_trip c s = (faults s (length (calls s)), s\<lparr>calls := calls s @ [c]\<rparr>)"

section \<open>Reading a profile: \<^verbatim>\<open>getUserProfile\<close>\<close>

fun to_date :: "stored_date \<Rightarrow> world \<Rightarrow> int \<times> world" where
  "to_date (Timestamp t) s = (t, s)"
| "to_date (Plain t) s = (t, s)"
| "to_date Missing s = date_now s"

text \<open>
  \<^verbatim>\<open>{ ...data, createdAt: ..., updatedAt: ... } as User\<close>: the fields of the document,
  with both dates normalised (in this order).
\<close>

definition toUser :: "UserDoc \<Rightarrow> world \<Rightarrow> User \<times> world" where
  "toUser d s =
     (case to_date (doc_createdAt d) s of (c, s1) \<Rightarrow>
      case to_date (doc_updatedAt d) s1 of (u, s2) \<Rightarrow>
        (\<lparr>uid = doc_uid d, email = doc_email d, displayName = doc_displayName d,
          photoURL = doc_photoURL d, bio = doc_bio d, createdAt = c, updatedAt = u\<rparr>, s2))"

definition getUserProfile :: "string \<Rightarrow> world \<Rightarrow> (error + User option) \<times> world" where
  "getUserProfile u s =
     (if \<not> db_ok s then (Inl NotInitialized, s)
      else case round_trip (GetDoc ''users'' u) s of (failed, s1) \<Rightarrow>
        if failed then (Inl StoreFailure, s1)
        else (case map_of (users s1) u of
                None \<Rightarrow> (Inr None, s1)
              | Some d \<Rightarrow> (case toUser d s1 of (usr, s2) \<Rightarrow> (Inr (Some usr), s2))))"

section \<open>The cache: \<^verbatim>\<open>UserProfileCache\<close>\<close>

definition CACHE_TTL :: int where
  "CACHE_TTL = 5 * 60 * 1000"

definition MAX_CACHE_SIZE :: nat where
  "MAX_CACHE_SIZE = 1000"

text \<open>
  \<^verbatim>\<open>cleanupCache\<close>: one reading of the time, then every entry whose age has reached
  the TTL is deleted.
\<close>

definition expired :: "int \<Rightarrow> string \<times> CacheEntry \<Rightarrow> bool" where
  "expired now p = (now - timestamp (snd p) \<ge> CACHE_TTL)"

definition cleanupCache :: "world \<Rightarrow> world" where
  "cleanupCache s =
     (case date_now s of (now, s1) \<Rightarrow>
        s1\<lparr>cache := filter (\<lambda>p. \<not> expired now p) (cache s1)\<rparr>)"

definition setUser :: "string \<Rightarrow> User \<Rightarrow> world \<Rightarrow> world" where
  "setUser u usr s =
     (case date_now (if length (cache s) \<ge> MAX_CACHE_SIZE then cleanupCache s else s) of
        (now, s2) \<Rightarrow>
          s2\<lparr>cache := AList.update u \<lparr>user = usr, timestamp = now\<rparr> (cache s2)\<rparr>)"

definition invalidateUser :: "string \<Rightarrow> world \<Rightarrow> world" where
  "invalidateUser u s = s\<lparr>cache := AList.delete u (cache s)\<rparr>"

definition clearCache :: "world \<Rightarrow> world" where
  "clearCache s = s\<lparr>cache := []\<rparr>"

text \<open>Lines 20 to 25 of \<^verbatim>\<open>getUser\<close>: fetch from the database, cache what was found.\<close>

definition getUser_fetch :: "string \<Rightarrow> world \<Rightarrow> (error + User option) \<times> world" where
  "getUser_fetch u s =
     (case getUserProfile u s of
        (Inl e, s1) \<Rightarrow> (Inl e, s1)
      | (Inr None, s1) \<Rightarrow> (Inr None, s1)
      | (Inr (Some usr), s1) \<Rightarrow> (Inr (Some usr), setUser u usr s1))"

text \<open>
  \<^verbatim>\<open>getUser\<close>. The time is read only when the map has an entry
  (\<^verbatim>\<open>cached && Date.now() - cached.timestamp < this.CACHE_TTL\<close>).
\<close>

definition getUser :: "string \<Rightarrow> world \<Rightarrow> (error + User option) \<times> world" where
  "getUser u s =
     (case map_of (cache s) u of
        None \<Rightarrow> getUser_fetch u s
      | Some cached \<Rightarrow>
          (case date_now s of (now, s1) \<Rightarrow>
             if now - timestamp cached < CACHE_TTL then (Inr (Some (user cached)), s1)
             else getUser_fetch u s1))"

section \<open>Batched lookup: \<^verbatim>\<open>getUsers\<close> and \<^verbatim>\<open>batchGetUsers\<close>\<close>

text \<open>
  The first loop of \<^verbatim>\<open>getUsers\<close>: a fresh entry goes to the result
  (\<^verbatim>\<open>result.set\<close>), every other id to \<^verbatim>\<open>uncachedUids\<close>.
\<close>

fun check_cache ::
  "string list \<Rightarrow> world \<Rightarrow> (string \<times> User) list \<Rightarrow> string list \<Rightarrow>
     (string \<times> User) list \<times> string list \<times> world" where
  "check_cache [] s result uncachedUids = (result, uncachedUids, s)"
| "check_cache (u # us) s result uncachedUids =
     (case map_of (cache s) u of
        None \<Rightarrow> check_cache us s result (uncachedUids @ [u])
      | Some cached \<Rightarrow>
          (case date_now s of (now, s1) \<Rightarrow>
             if now - timestamp cached < CACHE_TTL
             then check_cache us s1 (AList.update u (user cached) result) uncachedUids
             else check_cache us s1 result (uncachedUids @ [u])))"

text \<open>
  \<^verbatim>\<open>for (let i = 0; i < uids.length; i += 10) batches.push(uids.slice(i, i + 10))\<close>
\<close>

function batches_from :: "nat \<Rightarrow> string list \<Rightarrow> string list list" where
  "batches_from i uids =
     (if i < length uids then take 10 (drop i uids) # batches_from (i + 10) uids else [])"
  by pat_completeness auto
termination
  by (relation "measure (\<lambda>(i, uids). length uids - i)") auto

declare batches_from.simps [simp del]

text \<open>
  The documents a query \<^verbatim>\<open>where("uid", "in", batch)\<close> returns, and
  \<^verbatim>\<open>querySnapshot.forEach\<close> over them: each is normalised and stored under its
  own \<^verbatim>\<open>uid\<close> field.
\<close>

definition query_users_in :: "string list \<Rightarrow> world \<Rightarrow> UserDoc list" where
  "query_users_in batch s = filter (\<lambda>d. doc_uid d \<in> set batch) (map snd (users s))"

fun collect_docs ::
  "UserDoc list \<Rightarrow> world \<Rightarrow> (string \<times> User) list \<Rightarrow> (string \<times> User) list \<times> world" where
  "collect_docs [] s result = (result, s)"
| "collect_docs (d # ds) s result =
     (case toUser d s of (userData, s1) \<Rightarrow>
        collect_docs ds s1 (AList.update (uid userData) userData result))"

fun run_batches ::
  "string list list \<Rightarrow> world \<Rightarrow> (string \<times> User) list \<Rightarrow>
     (error + (string \<times> User) list) \<times> world" where
  "run_batches [] s result = (Inr result, s)"
| "run_batches (batch # rest) s result =
     (case round_trip (QueryUsersIn batch) s of (failed, s1) \<Rightarrow>
        if failed then (Inl StoreFailure, s1)
        else case collect_docs (query_users_in batch s1) s1 result of (result', s2) \<Rightarrow>
          run_batches rest s2 result')"

definition batchGetUsers ::
  "string list \<Rightarrow> world \<Rightarrow> (error + (string \<times> User) list) \<times> world" where
  "batchGetUsers uids s =
     (if \<not> db_ok s then (Inl NotInitialized, s)
      else run_batches (batches_from 0 uids) s [])"

text \<open>
  The second loop of \<^verbatim>\<open>getUsers\<close>: every fetched profile goes to the result and
  to the cache.
\<close>

fun fill_cache ::
  "(string \<times> User) list \<Rightarrow> world \<Rightarrow> (string \<times> User) list \<Rightarrow> (string \<times> User) list \<times> world" where
  "fill_cache [] s result = (result, s)"
| "fill_cache ((u, usr) # rest) s result =
     fill_cache rest (setUser u usr s) (AList.update u usr result)"

definition getUsers ::
  "string list \<Rightarrow> world \<Rightarrow> (error + (string \<times> User) list) \<times> world" where
  "getUsers uids s =
     (case check_cache uids s [] [] of (result, uncachedUids, s1) \<Rightarrow>
        if length uncachedUids > 0 then
          (case batchGetUsers uncachedUids s1 of
             (Inl e, s2) \<Rightarrow> (Inl e, s2)
           | (Inr fetched, s2) \<Rightarrow>
               (case fill_cache fetched s2 result of (result', s3) \<Rightarrow> (Inr result', s3)))
        else (Inr result, s1))"

section \<open>Repair of the denormalised copies: \<^verbatim>\<open>updateUserContentReferences\<close>\<close>

definition MAX_BATCH_SIZE :: nat where
  "MAX_BATCH_SIZE = 500"

text \<open>
  The write batch of the store's client library: the operations staged so far, and
  whether it was committed. The library refuses a batch that was committed
  (\<^verbatim>\<open>update\<close> and \<^verbatim>\<open>commit\<close> both throw then).
\<close>

record WriteBatch =
  staged :: "batch_op list"
  committed :: bool

definition writeBatch :: WriteBatch where
  "writeBatch = \<lparr>staged = [], committed = False\<rparr>"

definition batch_update :: "batch_op \<Rightarrow> WriteBatch \<Rightarrow> error + WriteBatch" where
  "batch_update w b =
     (if committed b then Inl BatchCommitted else Inr (b\<lparr>staged := staged b @ [w]\<rparr>))"

fun op_target :: "batch_op \<Rightarrow> string" where
  "op_target (UpdateAuthor i n p t) = i"
| "op_target (UpdateComments i cs) = i"

fun apply_op :: "batch_op \<Rightarrow> Post \<Rightarrow> Post" where
  "apply_op (UpdateAuthor i n p t) x =
     (if post_id x = i
      then x\<lparr>post_authorName := n, post_authorPhotoURL := p, post_updatedAt := t\<rparr> else x)"
| "apply_op (UpdateComments i cs) x =
     (if post_id x = i then x\<lparr>post_comments := Some cs\<rparr> else x)"

text \<open>
  \<^verbatim>\<open>batch.commit()\<close>: one round trip; the operations are applied in the order
  staged, all or none (an update of a document that does not exist fails the batch).
\<close>

definition batch_commit :: "WriteBatch \<Rightarrow> world \<Rightarrow> (error + WriteBatch) \<times> world" where
  "batch_commit b s =
     (if committed b then (Inl BatchCommitted, s)
      else case round_trip (Commit (staged b)) s of (failed, s1) \<Rightarrow>
        if failed then (Inl StoreFailure, s1)
        else if list_all (\<lambda>w. op_target w \<in> set (map post_id (posts s1))) (staged b)
        then (Inr (b\<lparr>committed := True\<rparr>),
              s1\<lparr>posts := map (\<lambda>x. fold apply_op (staged b) x) (posts s1)\<rparr>)
        else (Inl NotFound, s1))"

text \<open>The rewrite of one nested comment (lines 154 to 163).\<close>

definition rewrite_comment :: "string \<Rightarrow> string \<Rightarrow> string \<Rightarrow> Comment \<Rightarrow> Comment" where
  "rewrite_comment u newDisplayName newPhotoURL c =
     (if comment_authorId c = u
      then c\<lparr>comment_authorName := newDisplayName, comment_authorPhotoURL := newPhotoURL\<rparr>
      else c)"

text \<open>
  The loop over \<^verbatim>\<open>postsSnapshot.docs\<close> (lines 140 to 175), with the batch and the
  counter \<^verbatim>\<open>batchOperations\<close> it carries.
\<close>

fun repair_loop ::
  "Post list \<Rightarrow> string \<Rightarrow> string \<Rightarrow> string \<Rightarrow> WriteBatch \<Rightarrow> nat \<Rightarrow> world \<Rightarrow>
     (error + WriteBatch \<times> nat) \<times> world" where
  "repair_loop [] u n p batch batchOperations s = (Inr (batch, batchOperations), s)"
| "repair_loop (postDoc # rest) u n p batch batchOperations s =
     (case date_now s of (now, s1) \<Rightarrow>
      (case batch_update (UpdateAuthor (post_id postDoc) n p now) batch of
        Inl e \<Rightarrow> (Inl e, s1)
      | Inr b1 \<Rightarrow>
          (case (case post_comments postDoc of
                   None \<Rightarrow> Inr b1
                 | Some cs \<Rightarrow>
                     batch_update
                       (UpdateComments (post_id postDoc) (map (rewrite_comment u n p) cs)) b1) of
             Inl e \<Rightarrow> (Inl e, s1)
           | Inr b2 \<Rightarrow>
               if Suc batchOperations \<ge> MAX_BATCH_SIZE then
                 (case batch_commit b2 s1 of
                    (Inl e, s2) \<Rightarrow> (Inl e, s2)
                  | (Inr b3, s2) \<Rightarrow> repair_loop rest u n p b3 0 s2)
               else repair_loop rest u n p b2 (Suc batchOperations) s1)))"

definition updateUserContentReferences ::
  "string \<Rightarrow> string \<Rightarrow> string \<Rightarrow> world \<Rightarrow> (error + unit) \<times> world" where
  "updateUserContentReferences u newDisplayName newPhotoURL s =
     (if \<not> db_ok s then (Inl NotInitialized, s)
      else case round_trip (QueryPostsByAuthor u) s of (failed, s1) \<Rightarrow>
        if failed then (Inl StoreFailure, s1)
        else
          (case repair_loop (filter (\<lambda>x. post_authorId x = u) (posts s1))
                  u newDisplayName newPhotoURL writeBatch 0 s1 of
             (Inl e, s2) \<Rightarrow> (Inl e, s2)
           | (Inr (batch, batchOperations), s2) \<Rightarrow>
               (case (if batchOperations > 0 then batch_commit batch s2 else (Inr batch, s2)) of
                  (Inl e, s3) \<Rightarrow> (Inl e, s3)
                | (Inr b, s3) \<Rightarrow> (Inr (), invalidateUser u s3))))"

section \<open>The profile update: \<^verbatim>\<open>updateUserProfile\<close>\<close>

text \<open>
  \<^verbatim>\<open>updateDoc(userRef, { ...data, updatedAt: new Date() })\<close>: the fields the patch
  has replace those of the document; a date is stored as a timestamp.
\<close>

definition apply_patch :: "UserPatch \<Rightarrow> int \<Rightarrow> UserDoc \<Rightarrow> UserDoc" where
  "apply_patch data now d =
     \<lparr>doc_uid = (case patch_uid data of None \<Rightarrow> doc_uid d | Some v \<Rightarrow> v),
      doc_email = (case patch_email data of None \<Rightarrow> doc_email d | Some v \<Rightarrow> v),
      doc_displayName = (case patch_displayName data of None \<Rightarrow> doc_displayName d | Some v \<Rightarrow> v),
      doc_photoURL = (case patch_photoURL data of None \<Rightarrow> doc_photoURL d | Some v \<Rightarrow> v),
      doc_bio = (case patch_bio data of None \<Rightarrow> doc_bio d | Some v \<Rightarrow> Some v),
      doc_createdAt = (case patch_createdAt data of None \<Rightarrow> doc_createdAt d | Some t \<Rightarrow> Timestamp t),
      doc_updatedAt = Timestamp now\<rparr>"

text \<open>The truth value of an optional string: present and not empty.\<close>

definition truthy :: "string option \<Rightarrow> bool" where
  "truthy x = (case x of None \<Rightarrow> False | Some v \<Rightarrow> v \<noteq> [])"

text \<open>
  \<^verbatim>\<open>updateUserProfile\<close>. The call of \<^verbatim>\<open>updateUserContentReferences\<close> is not
  awaited: the promise joins \<open>detached\<close>, and the function goes on to invalidate the
  cache entry and returns. (The part of the repair that runs before its first
  \<^verbatim>\<open>await\<close> changes neither the cache nor the store, so the whole repair is run
  by \<open>run_detached\<close>.)
\<close>

definition updateUserProfile ::
  "string \<Rightarrow> UserPatch \<Rightarrow> world \<Rightarrow> (error + unit) \<times> world" where
  "updateUserProfile u data s =
     (if \<not> db_ok s then (Inl NotInitialized, s)
      else case date_now s of (now, s1) \<Rightarrow>
        case round_trip (UpdateDoc ''users'' u) s1 of (failed, s2) \<Rightarrow>
        if failed then (Inl StoreFailure, s2)
        else (case map_of (users s2) u of
          None \<Rightarrow> (Inl NotFound, s2)
        | Some d \<Rightarrow>
            (case s2\<lparr>users := AList.update u (apply_patch data now d) (users s2)\<rparr> of s3 \<Rightarrow>
               if truthy (patch_displayName data) \<or> truthy (patch_photoURL data) then
                 (case getUserProfile u s3 of
                    (Inl e, s4) \<Rightarrow> (Inl e, s4)
                  | (Inr None, s4) \<Rightarrow> (Inr (), invalidateUser u s4)
                  | (Inr (Some updatedUser), s4) \<Rightarrow>
                      (Inr (), invalidateUser u
                         (s4\<lparr>detached := detached s4 @
                            [Repair u (displayName updatedUser) (photoURL updatedUser)]\<rparr>)))
               else (Inr (), invalidateUser u s3))))"

text \<open>
  The detached promise settles: the repair runs, and a rejection goes to
  \<^verbatim>\<open>.catch(error => console.error(...))\<close>. Nothing starts the repair again.
\<close>

definition run_detached :: "world \<Rightarrow> world" where
  "run_detached s =
     (case detached s of
        [] \<Rightarrow> s
      | Repair u n p # rest \<Rightarrow>
          (case updateUserContentReferences u n p (s\<lparr>detached := rest\<rparr>) of
             (Inl e, s1) \<Rightarrow> s1\<lparr>console := console s1 @ [e]\<rparr>
           | (Inr r, s1) \<Rightarrow> s1))"

section \<open>Enrichment at read time: \<^verbatim>\<open>enrichPostsWithUserData\<close>\<close>

text \<open>\<^verbatim>\<open>Set.add\<close>, on the set's elements in insertion order.\<close>

definition set_add :: "string \<Rightarrow> string list \<Rightarrow> string list" where
  "set_add x xs = (if x \<in> set xs then xs else xs @ [x])"

definition post_author_ids :: "Post \<Rightarrow> string list \<Rightarrow> string list" where
  "post_author_ids x authorIds =
     (case post_comments x of
        None \<Rightarrow> set_add (post_authorId x) authorIds
      | Some cs \<Rightarrow> fold (\<lambda>c. set_add (comment_authorId c)) cs (set_add (post_authorId x) authorIds))"

definition author_ids :: "Post list \<Rightarrow> string list" where
  "author_ids xs = fold post_author_ids xs []"

definition enrich_comment :: "(string \<times> User) list \<Rightarrow> Comment \<Rightarrow> Comment" where
  "enrich_comment us c =
     (case map_of us (comment_authorId c) of
        None \<Rightarrow> c
      | Some commentAuthor \<Rightarrow>
          c\<lparr>comment_authorName := displayName commentAuthor,
            comment_authorPhotoURL := photoURL commentAuthor\<rparr>)"

definition enrich_post :: "(string \<times> User) list \<Rightarrow> Post \<Rightarrow> Post" where
  "enrich_post us x =
     (case (case map_of us (post_authorId x) of
              None \<Rightarrow> x
            | Some postAuthor \<Rightarrow>
                x\<lparr>post_authorName := displayName postAuthor,
                  post_authorPhotoURL := photoURL postAuthor\<rparr>) of enrichedPost \<Rightarrow>
        (case post_comments enrichedPost of
           None \<Rightarrow> enrichedPost
         | Some cs \<Rightarrow> enrichedPost\<lparr>post_comments := Some (map (enrich_comment us) cs)\<rparr>))"

definition enrichPostsWithUserData ::
  "Post list \<Rightarrow> world \<Rightarrow> (error + Post list) \<times> world" where
  "enrichPostsWithUserData xs s =
     (case getUsers (author_ids xs) s of
        (Inl e, s1) \<Rightarrow> (Inl e, s1)
      | (Inr us, s1) \<Rightarrow> (Inr (map (enrich_post us) xs), s1))"

section \<open>Notions the properties are stated with\<close>

text \<open>
  An id is fresh at a time when the map has an entry for it whose age is below the TTL:
  the test \<^verbatim>\<open>cached && Date.now() - cached.timestamp < this.CACHE_TTL\<close>.
\<close>

definition fresh_at :: "int \<Rightarrow> (string \<times> CacheEntry) list \<Rightarrow> string \<Rightarrow> bool" where
  "fresh_at now c u = (case map_of c u of None \<Rightarrow> False | Some e \<Rightarrow> now - timestamp e < CACHE_TTL)"

text \<open>
  A quiet run at time \<open>t\<close>: the store is initialised, no round trip rejects, and every
  reading of the clock gives \<open>t\<close>.
\<close>

definition calm :: "int \<Rightarrow> world \<Rightarrow> bool" where
  "calm t s = (db_ok s \<and> (\<forall>n. clock s n = t) \<and> (\<forall>n. \<not> faults s n))"

text \<open>The profile a stored document is read as when the clock reads \<open>now\<close>.\<close>

definition user_of_doc :: "int \<Rightarrow> UserDoc \<Rightarrow> User" where
  "user_of_doc now d =
     \<lparr>uid = doc_uid d, email = doc_email d, displayName = doc_displayName d,
      photoURL = doc_photoURL d, bio = doc_bio d,
      createdAt = (case doc_createdAt d of Timestamp t \<Rightarrow> t | Plain t \<Rightarrow> t | Missing \<Rightarrow> now),
      updatedAt = (case doc_updatedAt d of Timestamp t \<Rightarrow> t | Plain t \<Rightarrow> t | Missing \<Rightarrow> now)\<rparr>"

text \<open>
  The mapping that results from storing each document of a list under its
  \<^verbatim>\<open>uid\<close>, in order (the union of query results).
\<close>

definition profiles_of :: "int \<Rightarrow> UserDoc list \<Rightarrow> (string \<times> User) list" where
  "profiles_of now ds = fold (\<lambda>d. AList.update (doc_uid d) (user_of_doc now d)) ds []"

text \<open>
  The document of the collection \<^verbatim>\<open>users\<close> that backs an id: the one whose
  \<^verbatim>\<open>uid\<close> field is the id (the last one, should there be several).
\<close>

definition store_lookup :: "world \<Rightarrow> string \<Rightarrow> UserDoc option" where
  "store_lookup s u = List.find (\<lambda>d. doc_uid d = u) (rev (map snd (users s)))"

text \<open>
  The cache agrees with the store on a list of ids: every fresh entry among them holds
  the profile that the store's document for the id is read as.
\<close>

definition coherent :: "int \<Rightarrow> string list \<Rightarrow> world \<Rightarrow> bool" where
  "coherent t ids s =
     list_all (\<lambda>u. fresh_at t (cache s) u \<longrightarrow>
        map_option user (map_of (cache s) u) = map_option (user_of_doc t) (store_lookup s u)) ids"

text \<open>Insertions in immediate succession: one \<^verbatim>\<open>setUser\<close> after the other.\<close>

definition setUsers :: "(string \<times> User) list \<Rightarrow> world \<Rightarrow> world" where
  "setUsers kvs s = fold (\<lambda>p. setUser (fst p) (snd p)) kvs s"

text \<open>Every entry of the map carries a timestamp that is a reading of the clock.\<close>

definition stamped :: "world \<Rightarrow> bool" where
  "stamped s = (\<forall>p \<in> set (cache s). \<exists>k. timestamp (snd p) = clock s k)"

text \<open>The nested comments of a post (none when the post carries no array).\<close>

definition comments_of :: "Post \<Rightarrow> Comment list" where
  "comments_of x = (case post_comments x of None \<Rightarrow> [] | Some cs \<Rightarrow> cs)"

text \<open>
  Two states that differ at most in the collection \<^verbatim>\<open>posts\<close>, the clock readings made
  and the log of round trips.
\<close>

definition repair_step :: "world \<Rightarrow> world \<Rightarrow> bool" where
  "repair_step s s' =
     (cache s' = cache s \<and> db_ok s' = db_ok s \<and> users s' = users s \<and> clock s' = clock s
      \<and> faults s' = faults s \<and> console s' = console s \<and> detached s' = detached s)"

text \<open>The sizes of the batches committed, in the order of the log.\<close>

fun batch_sizes :: "store_call list \<Rightarrow> nat list" where
  "batch_sizes [] = []"
| "batch_sizes (Commit ws # cs) = length ws # batch_sizes cs"
| "batch_sizes (c # cs) = batch_sizes cs"

text \<open>
  What the repair means to write into one post of the user at time \<open>t\<close>, and the
  operations it stages for it.
\<close>

definition repaired :: "string \<Rightarrow> string \<Rightarrow> string \<Rightarrow> int \<Rightarrow> Post \<Rightarrow> Post" where
  "repaired u n p t x =
     x\<lparr>post_authorName := n, post_authorPhotoURL := p, post_updatedAt := t,
       post_comments := map_option (map (rewrite_comment u n p)) (post_comments x)\<rparr>"

definition ops_for :: "string \<Rightarrow> string \<Rightarrow> string \<Rightarrow> int \<Rightarrow> Post \<Rightarrow> batch_op list" where
  "ops_for u n p t x =
     UpdateAuthor (post_id x) n p t #
       (case post_comments x of None \<Rightarrow> []
        | Some cs \<Rightarrow> [UpdateComments (post_id x) (map (rewrite_comment u n p) cs)])"

section \<open>Concrete states\<close>

text \<open>
  The stored profile of the user \<open>''U''\<close>, and the profile an older copy of it was
  read as, before the user was renamed.
\<close>

definition alice :: UserDoc where
  "alice = \<lparr>doc_uid = ''U'', doc_email = ''alice@example.org'', doc_displayName = ''Alice'',
     doc_photoURL = ''alice.png'', doc_bio = None,
     doc_createdAt = Timestamp 1, doc_updatedAt = Timestamp 2\<rparr>"

definition alice_old :: User where
  "alice_old = \<lparr>uid = ''U'', email = ''alice@example.org'', displayName = ''USER1'',
     photoURL = ''old.png'', bio = None, createdAt = 1, updatedAt = 1\<rparr>"

text \<open>
  A state whose cache holds an older copy of the profile of \<open>''U''\<close>, inserted at time 0,
  and whose clock reads \<open>now\<close> at every reading.
\<close>

definition world_at :: "int \<Rightarrow> world" where
  "world_at now =
     \<lparr>cache = [(''U'', \<lparr>user = alice_old, timestamp = 0\<rparr>)], db_ok = True,
      users = [(''U'', alice)], posts = [], clock = (\<lambda>n. now), ticks = 0,
      faults = (\<lambda>n. False), calls = [], console = [], detached = []\<rparr>"

text \<open>\<open>n\<close> profiles under \<open>n\<close> distinct ids, and a state with an empty cache.\<close>

definition crowd :: "nat \<Rightarrow> (string \<times> User) list" where
  "crowd n = map (\<lambda>i. (replicate (Suc i) CHR ''k'', alice_old)) [0..<n]"

definition empty_world :: world where
  "empty_world = (world_at 0)\<lparr>cache := []\<rparr>"

text \<open>The stored profile of the user \<open>''V''\<close>; its \<^verbatim>\<open>updatedAt\<close> is missing.\<close>

definition bob :: UserDoc where
  "bob = \<lparr>doc_uid = ''V'', doc_email = ''bob@example.org'', doc_displayName = ''Bob'',
     doc_photoURL = ''bob.png'', doc_bio = Some ''hello'',
     doc_createdAt = Timestamp 3, doc_updatedAt = Missing\<rparr>"

text \<open>
  A state with the profiles of \<open>''U''\<close> and \<open>''V''\<close> in the store and none of \<open>''W''\<close>,
  whose cache holds the current profile of \<open>''U''\<close>, inserted at time 0; the clock reads
  100.
\<close>

definition world_mixed :: world where
  "world_mixed =
     \<lparr>cache = [(''U'', \<lparr>user = user_of_doc 0 alice, timestamp = 0\<rparr>)], db_ok = True,
      users = [(''U'', alice), (''V'', bob)], posts = [], clock = (\<lambda>n. 100), ticks = 0,
      faults = (\<lambda>n. False), calls = [], console = [], detached = []\<rparr>"

text \<open>Twenty-three distinct ids: \<open>''U''\<close> first, \<open>''V''\<close> last.\<close>

definition ids23 :: "string list" where
  "ids23 = [''U'', ''b'', ''c'', ''d'', ''e'', ''f'', ''g'', ''h'', ''i'', ''j'',
            ''k'', ''l'', ''m'', ''n'', ''o'', ''p'', ''q'', ''r'', ''s'', ''t'',
            ''u'', ''v'', ''V'']"

text \<open>A state whose cache holds a fresh entry for an id that has no document in the store.\<close>

definition world_gone :: world where
  "world_gone = (world_at 0)\<lparr>users := []\<rparr>"

text \<open>Two comments, by \<open>''W''\<close> and by \<open>''V''\<close>, as denormalised some time ago.\<close>

definition carol_comment :: Comment where
  "carol_comment = \<lparr>comment_id = ''c2'', comment_postId = ''p1'', comment_authorId = ''W'',
     comment_authorName = ''Carol'', comment_authorPhotoURL = ''carol.png'',
     comment_content = ''nice'', comment_createdAt = 20\<rparr>"

definition bob_comment :: Comment where
  "bob_comment = \<lparr>comment_id = ''c3'', comment_postId = ''p1'', comment_authorId = ''V'',
     comment_authorName = ''Bobby'', comment_authorPhotoURL = ''old-bob.png'',
     comment_content = ''hello'', comment_createdAt = 21\<rparr>"

text \<open>
  A post of \<open>''U''\<close> that still carries the old name, with a comment by \<open>''W''\<close> (who
  has no profile) and one by \<open>''V''\<close>.
\<close>

definition post1 :: Post where
  "post1 = \<lparr>post_id = ''p1'', post_authorId = ''U'', post_authorName = ''USER1'',
     post_authorPhotoURL = ''old.png'', post_content = ''first post'', post_imageURL = None,
     post_likes = [''V''], post_comments = Some [carol_comment, bob_comment],
     post_createdAt = 10, post_updatedAt = 10\<rparr>"

text \<open>A patch that renames a user and gives a new avatar.\<close>

definition new_name :: UserPatch where
  "new_name = \<lparr>patch_uid = None, patch_email = None, patch_displayName = Some ''USER2'',
     patch_photoURL = Some ''new.png'', patch_bio = None, patch_createdAt = None,
     patch_updatedAt = None\<rparr>"

text \<open>
  A state with a post of \<open>''U''\<close> in the store, in which the fourth round trip (the
  commit of the repair's batch) rejects.
\<close>

definition world_failing :: world where
  "world_failing = (world_at 0)\<lparr>posts := [post1], faults := (\<lambda>n. n = 3)\<rparr>"

text \<open>
  The scenario of the repair: \<open>''U''\<close> wrote the posts \<open>p1\<close> (with a comment by \<open>''V''\<close>)
  and \<open>p2\<close>, and a comment on the post \<open>p3\<close> of \<open>''V''\<close>.
\<close>

definition comment_by :: "string \<Rightarrow> string \<Rightarrow> string \<Rightarrow> string \<Rightarrow> Comment" where
  "comment_by i pid a n =
     \<lparr>comment_id = i, comment_postId = pid, comment_authorId = a, comment_authorName = n,
      comment_authorPhotoURL = ''old.png'', comment_content = ''a comment'',
      comment_createdAt = 5\<rparr>"

definition post_by :: "string \<Rightarrow> string \<Rightarrow> string \<Rightarrow> Comment list option \<Rightarrow> Post" where
  "post_by i a n cs =
     \<lparr>post_id = i, post_authorId = a, post_authorName = n, post_authorPhotoURL = ''old.png'',
      post_content = ''a post'', post_imageURL = None, post_likes = [], post_comments = cs,
      post_createdAt = 4, post_updatedAt = 4\<rparr>"

definition world_three_posts :: world where
  "world_three_posts =
     (world_at 0)\<lparr>users := [(''U'', alice), (''V'', bob)],
       posts := [post_by ''p1'' ''U'' ''Alice'' (Some [comment_by ''c2'' ''p1'' ''V'' ''Bob'']),
                 post_by ''p2'' ''U'' ''Alice'' (Some []),
                 post_by ''p3'' ''V'' ''Bob'' (Some [comment_by ''c1'' ''p3'' ''U'' ''Alice''])]\<rparr>"

text \<open>\<open>n\<close> posts of \<open>''U''\<close>, each with an (empty) comments array, as \<^verbatim>\<open>createPost\<close> writes them.\<close>

definition many_posts :: "nat \<Rightarrow> Post list" where
  "many_posts n = map (\<lambda>i. post_by (replicate (Suc i) CHR ''p'') ''U'' ''Alice'' (Some [])) [0..<n]"

definition world_many_posts :: "nat \<Rightarrow> world" where
  "world_many_posts n = (world_at 0)\<lparr>posts := many_posts n\<rparr>"

section \<open>Properties\<close>

lemma date_now_simps [simp]:
  "fst (date_now s) = clock s (ticks s)"
  "snd (date_now s) = s\<lparr>ticks := Suc (ticks s)\<rparr>"
  by (simp_all add: date_now_def)

lemma round_trip_simps [simp]:
  "fst (round_trip c s) = faults s (length (calls s))"
  "snd (round_trip c s) = s\<lparr>calls := calls s @ [c]\<rparr>"
  by (simp_all add: round_trip_def)

lemma to_date_frame:
  "to_date x s = (t, s') \<Longrightarrow> \<exists>k. s' = s\<lparr>ticks := ticks s + k\<rparr>"
proof (cases x)
  case Missing
  assume "to_date x s = (t, s')"
  with Missing have "s' = s\<lparr>ticks := ticks s + 1\<rparr>" by (simp add: date_now_def)
  then show ?thesis by blast
next
  case (Timestamp v)
  assume "to_date x s = (t, s')"
  with Timestamp have "s' = s\<lparr>ticks := ticks s + 0\<rparr>" by simp
  then show ?thesis by blast
next
  case (Plain v)
  assume "to_date x s = (t, s')"
  with Plain have "s' = s\<lparr>ticks := ticks s + 0\<rparr>" by simp
  then show ?thesis by blast
qed

lemma toUser_frame:
  assumes "toUser d s = (usr, s')"
  shows "\<exists>k. s' = s\<lparr>ticks := ticks s + k\<rparr>"
proof -
  obtain c s1 where c: "to_date (doc_createdAt d) s = (c, s1)" by (cases "to_date (doc_createdAt d) s")
  obtain v s2 where v: "to_date (doc_updatedAt d) s1 = (v, s2)" by (cases "to_date (doc_updatedAt d) s1")
  from assms c v have s': "s' = s2" by (simp add: toUser_def)
  from to_date_frame [OF c] obtain k1 where k1: "s1 = s\<lparr>ticks := ticks s + k1\<rparr>" by blast
  from to_date_frame [OF v] obtain k2 where k2: "s2 = s1\<lparr>ticks := ticks s1 + k2\<rparr>" by blast
  have "s' = s\<lparr>ticks := ticks s + (k1 + k2)\<rparr>" using s' k1 k2 by simp
  then show ?thesis by blast
qed

lemma toUser_fields:
  assumes "toUser d s = (usr, s')"
  shows "uid usr = doc_uid d \<and> email usr = doc_email d \<and> displayName usr = doc_displayName d
     \<and> photoURL usr = doc_photoURL d \<and> bio usr = doc_bio d"
  using assms by (auto simp: toUser_def split: prod.splits)

text \<open>setUser: what the cache holds afterwards.\<close>

lemma cleanupCache_frame:
  "cleanupCache s = s\<lparr>ticks := Suc (ticks s), cache := filter (\<lambda>p. \<not> expired (clock s (ticks s)) p) (cache s)\<rparr>"
  by (simp add: cleanupCache_def date_now_def)

lemma setUser_lookup:
  "\<exists>n\<ge>ticks s. map_of (cache (setUser u usr s)) u = Some \<lparr>user = usr, timestamp = clock s n\<rparr>"
proof (cases "length (cache s) \<ge> MAX_CACHE_SIZE")
  case True
  then have "map_of (cache (setUser u usr s)) u = Some \<lparr>user = usr, timestamp = clock s (Suc (ticks s))\<rparr>"
    by (simp add: setUser_def cleanupCache_frame date_now_def update_conv')
  then show ?thesis by (metis le_SucI order_refl)
next
  case False
  then have "map_of (cache (setUser u usr s)) u = Some \<lparr>user = usr, timestamp = clock s (ticks s)\<rparr>"
    by (simp add: setUser_def date_now_def update_conv')
  then show ?thesis by blast
qed

lemma setUser_frame:
  "calls (setUser u usr s) = calls s \<and> users (setUser u usr s) = users s
   \<and> posts (setUser u usr s) = posts s \<and> db_ok (setUser u usr s) = db_ok s
   \<and> clock (setUser u usr s) = clock s \<and> faults (setUser u usr s) = faults s
   \<and> console (setUser u usr s) = console s \<and> detached (setUser u usr s) = detached s"
  by (simp add: setUser_def cleanupCache_frame date_now_def)

lemma getUser_hit:
  assumes "map_of (cache s) u = Some e" "clock s (ticks s) - timestamp e < CACHE_TTL"
  shows "getUser u s = (Inr (Some (user e)), s\<lparr>ticks := Suc (ticks s)\<rparr>)"
  using assms by (simp add: getUser_def date_now_def)

lemma getUserProfile_none:
  assumes "db_ok s" "\<not> faults s (length (calls s))" "map_of (users s) u = None"
  shows "getUserProfile u s = (Inr None, s\<lparr>calls := calls s @ [GetDoc ''users'' u]\<rparr>)"
  using assms by (simp add: getUserProfile_def round_trip_def)

lemma getUserProfile_some:
  assumes "db_ok s" "\<not> faults s (length (calls s))" "map_of (users s) u = Some d"
  shows "\<exists>usr k. getUserProfile u s =
           (Inr (Some usr), s\<lparr>calls := calls s @ [GetDoc ''users'' u], ticks := ticks s + k\<rparr>)
         \<and> toUser d (s\<lparr>calls := calls s @ [GetDoc ''users'' u]\<rparr>) =
           (usr, s\<lparr>calls := calls s @ [GetDoc ''users'' u], ticks := ticks s + k\<rparr>)"
proof -
  let ?s1 = "s\<lparr>calls := calls s @ [GetDoc ''users'' u]\<rparr>"
  obtain usr s2 where t: "toUser d ?s1 = (usr, s2)" by (cases "toUser d ?s1")
  from toUser_frame [OF t] obtain k where k: "s2 = ?s1\<lparr>ticks := ticks ?s1 + k\<rparr>" by blast
  have "getUserProfile u s = (Inr (Some usr), s2)"
    using assms t by (simp add: getUserProfile_def round_trip_def)
  with t k show ?thesis by (intro exI [of _ usr] exI [of _ k]) simp
qed

lemma getUser_fetch_none:
  assumes "db_ok s" "\<not> faults s (length (calls s))" "map_of (users s) u = None"
  shows "getUser_fetch u s = (Inr None, s\<lparr>calls := calls s @ [GetDoc ''users'' u]\<rparr>)"
  using getUserProfile_none [OF assms] by (simp add: getUser_fetch_def)

lemma getUser_fetch_some:
  assumes "db_ok s" "\<not> faults s (length (calls s))" "map_of (users s) u = Some d"
  shows "\<exists>usr s1 n. getUserProfile u s = (Inr (Some usr), s1)
           \<and> getUser_fetch u s = (Inr (Some usr), setUser u usr s1)
           \<and> calls (setUser u usr s1) = calls s @ [GetDoc ''users'' u]
           \<and> uid usr = doc_uid d \<and> email usr = doc_email d
           \<and> displayName usr = doc_displayName d \<and> photoURL usr = doc_photoURL d
           \<and> bio usr = doc_bio d
           \<and> ticks s \<le> n
           \<and> map_of (cache (setUser u usr s1)) u = Some \<lparr>user = usr, timestamp = clock s n\<rparr>"
proof -
  let ?s0 = "s\<lparr>calls := calls s @ [GetDoc ''users'' u]\<rparr>"
  from getUserProfile_some [OF assms] obtain usr k where
    g: "getUserProfile u s = (Inr (Some usr), ?s0\<lparr>ticks := ticks s + k\<rparr>)" and
    t: "toUser d ?s0 = (usr, ?s0\<lparr>ticks := ticks s + k\<rparr>)" by blast
  let ?s1 = "?s0\<lparr>ticks := ticks s + k\<rparr>"
  from setUser_lookup [of ?s1 u usr] obtain n where
    n: "ticks ?s1 \<le> n" "map_of (cache (setUser u usr ?s1)) u = Some \<lparr>user = usr, timestamp = clock ?s1 n\<rparr>"
    by blast
  have f: "getUser_fetch u s = (Inr (Some usr), setUser u usr ?s1)"
    using g by (simp add: getUser_fetch_def)
  have c: "calls (setUser u usr ?s1) = calls s @ [GetDoc ''users'' u]"
    using setUser_frame [of u usr ?s1] by simp
  from n have n': "ticks s \<le> n" by simp
  from n have l: "map_of (cache (setUser u usr ?s1)) u = Some \<lparr>user = usr, timestamp = clock s n\<rparr>"
    by simp
  show ?thesis
    using g f c toUser_fields [OF t] n' l by blast
qed

subsection \<open>Claim C4: freshness of \<^verbatim>\<open>getUser\<close>\<close>

text \<open>
  C4. When the map holds an entry for the id whose age, at the time \<^verbatim>\<open>getUser\<close>
  reads the clock, is below the TTL, the cached profile is returned and no store call
  is made (the log \<open>calls\<close> is unchanged). Otherwise (no entry, or an entry whose age
  has reached the TTL), with the store initialised and the round trip not rejected,
  exactly one point lookup \<open>GetDoc ''users'' u\<close> is made; a profile that is found is
  stored by \<open>setUser\<close> and returned, so the map then holds it with a timestamp read
  during the call; when the store has no such profile the result is null and the map
  is unchanged.
\<close>

theorem getUser_freshness:
  "(fresh_at (clock s (ticks s)) (cache s) u \<longrightarrow>
      fst (getUser u s) = Inr (map_option user (map_of (cache s) u))
      \<and> calls (snd (getUser u s)) = calls s
      \<and> cache (snd (getUser u s)) = cache s)
   \<and> (\<not> fresh_at (clock s (ticks s)) (cache s) u \<and> db_ok s \<and> \<not> faults s (length (calls s)) \<longrightarrow>
      calls (snd (getUser u s)) = calls s @ [GetDoc ''users'' u]
      \<and> (case map_of (users s) u of
           None \<Rightarrow> fst (getUser u s) = Inr None \<and> cache (snd (getUser u s)) = cache s
         | Some d \<Rightarrow>
             (\<exists>usr s1 n. snd (getUser u s) = setUser u usr s1
                \<and> fst (getUser u s) = Inr (Some usr)
                \<and> uid usr = doc_uid d \<and> email usr = doc_email d
                \<and> displayName usr = doc_displayName d \<and> photoURL usr = doc_photoURL d
                \<and> bio usr = doc_bio d
                \<and> ticks s \<le> n
                \<and> map_of (cache (snd (getUser u s))) u
                    = Some \<lparr>user = usr, timestamp = clock s n\<rparr>)))"
proof (intro conjI impI)
  assume f: "fresh_at (clock s (ticks s)) (cache s) u"
  then obtain e where e: "map_of (cache s) u = Some e" "clock s (ticks s) - timestamp e < CACHE_TTL"
    by (auto simp: fresh_at_def split: option.splits)
  from getUser_hit [OF e] e
  show "fst (getUser u s) = Inr (map_option user (map_of (cache s) u))"
    and "calls (snd (getUser u s)) = calls s"
    and "cache (snd (getUser u s)) = cache s"
    by simp_all
next
  assume a: "\<not> fresh_at (clock s (ticks s)) (cache s) u \<and> db_ok s \<and> \<not> faults s (length (calls s))"
  define s0 where "s0 = (case map_of (cache s) u of None \<Rightarrow> s | Some e \<Rightarrow> s\<lparr>ticks := Suc (ticks s)\<rparr>)"
  have g: "getUser u s = getUser_fetch u s0"
    using a by (auto simp: getUser_def fresh_at_def s0_def date_now_def split: option.splits)
  have s0: "db_ok s0" "\<not> faults s0 (length (calls s0))" "users s0 = users s" "calls s0 = calls s"
    "cache s0 = cache s" "clock s0 = clock s" "ticks s \<le> ticks s0"
    using a by (auto simp: s0_def split: option.splits)
  show "calls (snd (getUser u s)) = calls s @ [GetDoc ''users'' u]"
  proof (cases "map_of (users s) u")
    case None
    with getUser_fetch_none [OF s0(1,2), of u] s0 g show ?thesis by simp
  next
    case (Some d)
    with getUser_fetch_some [OF s0(1,2), of u d] s0 g show ?thesis by auto
  qed
  show "case map_of (users s) u of
           None \<Rightarrow> fst (getUser u s) = Inr None \<and> cache (snd (getUser u s)) = cache s
         | Some d \<Rightarrow>
             (\<exists>usr s1 n. snd (getUser u s) = setUser u usr s1
                \<and> fst (getUser u s) = Inr (Some usr)
                \<and> uid usr = doc_uid d \<and> email usr = doc_email d
                \<and> displayName usr = doc_displayName d \<and> photoURL usr = doc_photoURL d
                \<and> bio usr = doc_bio d
                \<and> ticks s \<le> n
                \<and> map_of (cache (snd (getUser u s))) u
                    = Some \<lparr>user = usr, timestamp = clock s n\<rparr>)"
  proof (cases "map_of (users s) u")
    case None
    with getUser_fetch_none [OF s0(1,2), of u] s0 g show ?thesis by simp
  next
    case (Some d)
    from getUser_fetch_some [OF s0(1,2), of u d] Some s0 obtain usr s1 n where
      h: "getUser_fetch u s0 = (Inr (Some usr), setUser u usr s1)"
         "uid usr = doc_uid d" "email usr = doc_email d" "displayName usr = doc_displayName d"
         "photoURL usr = doc_photoURL d" "bio usr = doc_bio d" "ticks s0 \<le> n"
         "map_of (cache (setUser u usr s1)) u = Some \<lparr>user = usr, timestamp = clock s0 n\<rparr>"
      by auto
    from h(7) s0 have n: "ticks s \<le> n" by simp
    have "snd (getUser u s) = setUser u usr s1
                \<and> fst (getUser u s) = Inr (Some usr)
                \<and> uid usr = doc_uid d \<and> email usr = doc_email d
                \<and> displayName usr = doc_displayName d \<and> photoURL usr = doc_photoURL d
                \<and> bio usr = doc_bio d
                \<and> ticks s \<le> n
                \<and> map_of (cache (snd (getUser u s))) u
                    = Some \<lparr>user = usr, timestamp = clock s n\<rparr>"
      using h g s0 n by simp
    then show ?thesis unfolding Some option.case by blast
  qed
qed

theorem getUser_freshness_witness:
  "fresh_at 299999 (cache (world_at 299999)) ''U''
   \<and> fst (getUser ''U'' (world_at 299999)) = Inr (Some alice_old)
   \<and> calls (snd (getUser ''U'' (world_at 299999))) = []
   \<and> \<not> fresh_at 300000 (cache (world_at 300000)) ''U''
   \<and> calls (snd (getUser ''U'' (world_at 300000))) = [GetDoc ''users'' ''U'']
   \<and> (\<exists>usr. fst (getUser ''U'' (world_at 300000)) = Inr (Some usr) \<and> displayName usr = ''Alice''
        \<and> map_of (cache (snd (getUser ''U'' (world_at 300000)))) ''U''
            = Some \<lparr>user = usr, timestamp = 300000\<rparr>)"
  using getUser_freshness [of "world_at 299999" "''U''"] getUser_freshness [of "world_at 300000" "''U''"]
  by (auto simp: world_at_def fresh_at_def CACHE_TTL_def alice_def)

lemma expired_iff: "(\<not> expired now p) = (now - timestamp (snd p) < CACHE_TTL)"
  by (auto simp: expired_def)

lemma setUser_cache_small:
  "length (cache s) < MAX_CACHE_SIZE \<Longrightarrow>
   cache (setUser u usr s) = AList.update u \<lparr>user = usr, timestamp = clock s (ticks s)\<rparr> (cache s)"
  by (simp add: setUser_def date_now_def)

lemma setUser_cache_full:
  "MAX_CACHE_SIZE \<le> length (cache s) \<Longrightarrow>
   cache (setUser u usr s) =
     AList.update u \<lparr>user = usr, timestamp = clock s (Suc (ticks s))\<rparr>
       (filter (\<lambda>p. clock s (ticks s) - timestamp (snd p) < CACHE_TTL) (cache s))"
  by (simp add: setUser_def date_now_def cleanupCache_frame expired_iff)

lemma update_keeps_others:
  "p \<in> set al \<Longrightarrow> fst p \<noteq> k \<Longrightarrow> p \<in> set (AList.update k v al)"
  by (induction al) auto

lemma update_new_key:
  "k \<notin> fst ` set al \<Longrightarrow> AList.update k v al = al @ [(k, v)]"
  by (induction al) auto

lemma update_set_subset:
  "set (AList.update k v al) \<subseteq> insert (k, v) (set al)"
  by (induction al) auto

lemma setUser_keeps_fresh:
  assumes "p \<in> set (cache s)" "fst p \<noteq> u" "clock s (ticks s) - timestamp (snd p) < CACHE_TTL"
  shows "p \<in> set (cache (setUser u usr s))"
proof (cases "length (cache s) < MAX_CACHE_SIZE")
  case True
  with assms show ?thesis by (simp add: setUser_cache_small update_keeps_others)
next
  case False
  then have "MAX_CACHE_SIZE \<le> length (cache s)" by simp
  with assms show ?thesis by (simp add: setUser_cache_full update_keeps_others)
qed

text \<open>Entries stamped inside a window shorter than the TTL are never swept.\<close>

lemma setUser_in_window:
  assumes w: "\<forall>m n. clock s m - clock s n < CACHE_TTL" and st: "stamped s"
  shows "\<exists>k. cache (setUser u usr s) = AList.update u \<lparr>user = usr, timestamp = clock s k\<rparr> (cache s)"
proof (cases "length (cache s) < MAX_CACHE_SIZE")
  case True
  then show ?thesis using setUser_cache_small by blast
next
  case False
  then have f: "MAX_CACHE_SIZE \<le> length (cache s)" by simp
  have "filter (\<lambda>p. clock s (ticks s) - timestamp (snd p) < CACHE_TTL) (cache s) = cache s"
  proof (rule filter_True, rule ballI)
    fix p assume "p \<in> set (cache s)"
    with st obtain k where "timestamp (snd p) = clock s k" by (auto simp: stamped_def)
    with w show "clock s (ticks s) - timestamp (snd p) < CACHE_TTL" by simp
  qed
  with setUser_cache_full [OF f, of u usr] show ?thesis by auto
qed

lemma setUser_stamped:
  assumes w: "\<forall>m n. clock s m - clock s n < CACHE_TTL" and st: "stamped s"
  shows "stamped (setUser u usr s)"
proof -
  from setUser_in_window [OF w st, of u usr] obtain k where
    k: "cache (setUser u usr s) = AList.update u \<lparr>user = usr, timestamp = clock s k\<rparr> (cache s)"
    by blast
  have c: "clock (setUser u usr s) = clock s" using setUser_frame by simp
  note sub = update_set_subset [of u "\<lparr>user = usr, timestamp = clock s k\<rparr>" "cache s"]
  show ?thesis unfolding stamped_def k c
  proof
    fix p assume "p \<in> set (AList.update u \<lparr>user = usr, timestamp = clock s k\<rparr> (cache s))"
    with sub have "p = (u, \<lparr>user = usr, timestamp = clock s k\<rparr>) \<or> p \<in> set (cache s)" by auto
    then show "\<exists>j. timestamp (snd p) = clock s j"
    proof
      assume "p = (u, \<lparr>user = usr, timestamp = clock s k\<rparr>)"
      then have "timestamp (snd p) = clock s k" by simp
      then show ?thesis by blast
    next
      assume "p \<in> set (cache s)"
      with st show ?thesis by (auto simp: stamped_def)
    qed
  qed
qed

lemma setUsers_in_window:
  assumes "\<forall>m n. clock s m - clock s n < CACHE_TTL" "stamped s"
    "distinct (map fst kvs)" "fst ` set kvs \<inter> fst ` set (cache s) = {}"
  shows "map fst (cache (setUsers kvs s)) = map fst (cache s) @ map fst kvs
     \<and> map (user \<circ> snd) (cache (setUsers kvs s)) = map (user \<circ> snd) (cache s) @ map snd kvs"
  using assms
proof (induction kvs arbitrary: s)
  case Nil
  then show ?case by (simp add: setUsers_def)
next
  case (Cons p kvs)
  let ?s1 = "setUser (fst p) (snd p) s"
  from setUser_in_window [OF Cons.prems(1,2), of "fst p" "snd p"] obtain k where
    k: "cache ?s1 = AList.update (fst p) \<lparr>user = snd p, timestamp = clock s k\<rparr> (cache s)"
    by blast
  from Cons.prems(4) have new: "fst p \<notin> fst ` set (cache s)" by auto
  have c1: "cache ?s1 = cache s @ [(fst p, \<lparr>user = snd p, timestamp = clock s k\<rparr>)]"
    using k update_new_key [OF new] by simp
  have w1: "\<forall>m n. clock ?s1 m - clock ?s1 n < CACHE_TTL"
    using Cons.prems(1) setUser_frame [of "fst p" "snd p" s] by simp
  have st1: "stamped ?s1" by (rule setUser_stamped [OF Cons.prems(1,2)])
  have d1: "distinct (map fst kvs)" using Cons.prems(3) by simp
  have i1: "fst ` set kvs \<inter> fst ` set (cache ?s1) = {}"
    using Cons.prems(3,4) unfolding c1 by auto
  have "setUsers (p # kvs) s = setUsers kvs ?s1" by (simp add: setUsers_def)
  with Cons.IH [OF w1 st1 d1 i1] c1 show ?case by simp
qed

lemma distinct_crowd: "distinct (map fst (crowd n))"
proof -
  have "inj_on (\<lambda>i. replicate (Suc i) CHR ''k'') (set [0..<n])"
    by (rule inj_onI) (metis length_replicate nat.inject)
  then show ?thesis by (simp add: crowd_def distinct_map comp_def)
qed

subsection \<open>Claim C7: the capacity bound is soft\<close>

text \<open>
  C7. \<^verbatim>\<open>setUser\<close> is a total function of the state (it has no error result). Below
  the capacity it only inserts; at or above the capacity it first sweeps, and the sweep
  keeps exactly the entries whose age, at the time the sweep reads the clock, is below
  the TTL. So no entry under another id whose age is below the TTL is removed, and the
  entry just written is in the map. Inserting any number of profiles under distinct ids
  into an empty cache, with all clock readings less than a TTL apart, leaves every one
  of them in the map, in insertion order: the map then has as many entries as were
  inserted, also beyond \<open>MAX_CACHE_SIZE\<close>.
\<close>

theorem setUser_soft_capacity:
  "(length (cache s) < MAX_CACHE_SIZE \<longrightarrow>
      cache (setUser u usr s)
        = AList.update u \<lparr>user = usr, timestamp = clock s (ticks s)\<rparr> (cache s))
   \<and> (MAX_CACHE_SIZE \<le> length (cache s) \<longrightarrow>
      cache (setUser u usr s)
        = AList.update u \<lparr>user = usr, timestamp = clock s (Suc (ticks s))\<rparr>
            (filter (\<lambda>p. clock s (ticks s) - timestamp (snd p) < CACHE_TTL) (cache s)))
   \<and> (\<forall>p \<in> set (cache s). fst p \<noteq> u \<and> clock s (ticks s) - timestamp (snd p) < CACHE_TTL \<longrightarrow>
         p \<in> set (cache (setUser u usr s)))
   \<and> (\<exists>n\<ge>ticks s. map_of (cache (setUser u usr s)) u = Some \<lparr>user = usr, timestamp = clock s n\<rparr>)
   \<and> (cache s = [] \<and> distinct (map fst kvs) \<and> (\<forall>m n. clock s m - clock s n < CACHE_TTL) \<longrightarrow>
         map fst (cache (setUsers kvs s)) = map fst kvs
         \<and> map (user \<circ> snd) (cache (setUsers kvs s)) = map snd kvs
         \<and> length (cache (setUsers kvs s)) = length kvs)"
proof (intro conjI impI ballI)
  assume "length (cache s) < MAX_CACHE_SIZE"
  then show "cache (setUser u usr s)
        = AList.update u \<lparr>user = usr, timestamp = clock s (ticks s)\<rparr> (cache s)"
    by (rule setUser_cache_small)
next
  assume "MAX_CACHE_SIZE \<le> length (cache s)"
  then show "cache (setUser u usr s)
        = AList.update u \<lparr>user = usr, timestamp = clock s (Suc (ticks s))\<rparr>
            (filter (\<lambda>p. clock s (ticks s) - timestamp (snd p) < CACHE_TTL) (cache s))"
    by (rule setUser_cache_full)
next
  fix p assume "p \<in> set (cache s)"
    and "fst p \<noteq> u \<and> clock s (ticks s) - timestamp (snd p) < CACHE_TTL"
  then show "p \<in> set (cache (setUser u usr s))" by (simp add: setUser_keeps_fresh)
next
  show "\<exists>n\<ge>ticks s. map_of (cache (setUser u usr s)) u = Some \<lparr>user = usr, timestamp = clock s n\<rparr>"
    by (rule setUser_lookup)
next
  assume a: "cache s = [] \<and> distinct (map fst kvs) \<and> (\<forall>m n. clock s m - clock s n < CACHE_TTL)"
  then have st: "stamped s" by (simp add: stamped_def)
  from a have "fst ` set kvs \<inter> fst ` set (cache s) = {}" by simp
  with setUsers_in_window [of s kvs] a st
  have r: "map fst (cache (setUsers kvs s)) = map fst kvs"
      "map (user \<circ> snd) (cache (setUsers kvs s)) = map snd kvs" by simp_all
  from r show "map fst (cache (setUsers kvs s)) = map fst kvs" by simp
  from r show "map (user \<circ> snd) (cache (setUsers kvs s)) = map snd kvs" by simp
  from r(1) have "length (map fst (cache (setUsers kvs s))) = length (map fst kvs)" by simp
  then show "length (cache (setUsers kvs s)) = length kvs" by simp
qed

theorem setUser_soft_capacity_witness:
  "length (cache (setUsers (crowd 1001) empty_world)) = 1001
   \<and> MAX_CACHE_SIZE < 1001
   \<and> (''U'', \<lparr>user = alice_old, timestamp = 0\<rparr>)
        \<in> set (cache (setUser ''V'' alice_old (world_at 299999)))
   \<and> map_of (cache (setUser ''V'' alice_old (world_at 299999))) ''V''
        = Some \<lparr>user = alice_old, timestamp = 299999\<rparr>"
proof -
  have h: "cache empty_world = [] \<and> distinct (map fst (crowd 1001))
      \<and> (\<forall>m n. clock empty_world m - clock empty_world n < CACHE_TTL)"
    using distinct_crowd by (simp add: empty_world_def world_at_def CACHE_TTL_def)
  have "length (cache (setUsers (crowd 1001) empty_world)) = length (crowd 1001)"
    using setUser_soft_capacity [of empty_world "''x''" alice_old "crowd 1001"] h by blast
  then have a: "length (cache (setUsers (crowd 1001) empty_world)) = 1001"
    by (simp add: crowd_def)
  have b: "(''U'', \<lparr>user = alice_old, timestamp = 0\<rparr>)
        \<in> set (cache (setUser ''V'' alice_old (world_at 299999)))
      \<and> map_of (cache (setUser ''V'' alice_old (world_at 299999))) ''V''
        = Some \<lparr>user = alice_old, timestamp = 299999\<rparr>"
    using setUser_soft_capacity [of "world_at 299999" "''V''" alice_old "[]"]
    by (auto simp: world_at_def CACHE_TTL_def MAX_CACHE_SIZE_def)
  from a b show ?thesis by (simp add: MAX_CACHE_SIZE_def)
qed

lemma to_date_calm:
  "\<forall>n. clock s n = t \<Longrightarrow>
   \<exists>k. to_date x s = ((case x of Timestamp v \<Rightarrow> v | Plain v \<Rightarrow> v | Missing \<Rightarrow> t), s\<lparr>ticks := ticks s + k\<rparr>)"
proof (cases x)
  case Missing
  assume "\<forall>n. clock s n = t"
  with Missing have "to_date x s = ((case x of Timestamp v \<Rightarrow> v | Plain v \<Rightarrow> v | Missing \<Rightarrow> t), s\<lparr>ticks := ticks s + 1\<rparr>)"
    by (simp add: date_now_def)
  then show ?thesis by blast
next
  case (Timestamp v)
  then have "to_date x s = ((case x of Timestamp v \<Rightarrow> v | Plain v \<Rightarrow> v | Missing \<Rightarrow> t), s\<lparr>ticks := ticks s + 0\<rparr>)"
    by simp
  then show ?thesis by blast
next
  case (Plain v)
  then have "to_date x s = ((case x of Timestamp v \<Rightarrow> v | Plain v \<Rightarrow> v | Missing \<Rightarrow> t), s\<lparr>ticks := ticks s + 0\<rparr>)"
    by simp
  then show ?thesis by blast
qed

lemma toUser_calm:
  assumes "\<forall>n. clock s n = t"
  shows "\<exists>k. toUser d s = (user_of_doc t d, s\<lparr>ticks := ticks s + k\<rparr>)"
proof -
  from to_date_calm [OF assms, of "doc_createdAt d"] obtain k1 where
    c: "to_date (doc_createdAt d) s
          = ((case doc_createdAt d of Timestamp v \<Rightarrow> v | Plain v \<Rightarrow> v | Missing \<Rightarrow> t),
             s\<lparr>ticks := ticks s + k1\<rparr>)" by blast
  let ?s1 = "s\<lparr>ticks := ticks s + k1\<rparr>"
  have "\<forall>n. clock ?s1 n = t" using assms by simp
  from to_date_calm [OF this, of "doc_updatedAt d"] obtain k2 where
    v: "to_date (doc_updatedAt d) ?s1
          = ((case doc_updatedAt d of Timestamp v \<Rightarrow> v | Plain v \<Rightarrow> v | Missing \<Rightarrow> t),
             ?s1\<lparr>ticks := ticks ?s1 + k2\<rparr>)" by blast
  have "toUser d s = (user_of_doc t d, s\<lparr>ticks := ticks s + (k1 + k2)\<rparr>)"
    by (simp add: toUser_def c v user_of_doc_def add.assoc)
  then show ?thesis by blast
qed

lemma collect_docs_calm:
  "\<forall>n. clock s n = t \<Longrightarrow>
   \<exists>k. collect_docs ds s r
        = (fold (\<lambda>d. AList.update (doc_uid d) (user_of_doc t d)) ds r, s\<lparr>ticks := ticks s + k\<rparr>)"
proof (induction ds arbitrary: s r)
  case Nil
  have "collect_docs [] s r = (fold (\<lambda>d. AList.update (doc_uid d) (user_of_doc t d)) [] r, s\<lparr>ticks := ticks s + 0\<rparr>)"
    by simp
  then show ?case by blast
next
  case (Cons d ds)
  from toUser_calm [OF Cons.prems, of d] obtain k1 where
    u: "toUser d s = (user_of_doc t d, s\<lparr>ticks := ticks s + k1\<rparr>)" by blast
  let ?s1 = "s\<lparr>ticks := ticks s + k1\<rparr>"
  let ?r1 = "AList.update (doc_uid d) (user_of_doc t d) r"
  have "\<forall>n. clock ?s1 n = t" using Cons.prems by simp
  from Cons.IH [OF this, of ?r1] obtain k2 where
    ih: "collect_docs ds ?s1 ?r1
          = (fold (\<lambda>d. AList.update (doc_uid d) (user_of_doc t d)) ds ?r1, ?s1\<lparr>ticks := ticks ?s1 + k2\<rparr>)"
    by blast
  have "uid (user_of_doc t d) = doc_uid d" by (simp add: user_of_doc_def)
  then have "collect_docs (d # ds) s r
          = (fold (\<lambda>d. AList.update (doc_uid d) (user_of_doc t d)) (d # ds) r,
             s\<lparr>ticks := ticks s + (k1 + k2)\<rparr>)"
    using u ih by (simp add: add.assoc)
  then show ?case by blast
qed

lemma query_users_in_frame [simp]:
  "query_users_in b (s\<lparr>ticks := k\<rparr>) = query_users_in b s"
  "query_users_in b (s\<lparr>calls := c\<rparr>) = query_users_in b s"
  "query_users_in b (s\<lparr>cache := m\<rparr>) = query_users_in b s"
  by (simp_all add: query_users_in_def)

lemma calm_frame [simp]:
  "calm t (s\<lparr>ticks := k\<rparr>) = calm t s"
  "calm t (s\<lparr>calls := c\<rparr>) = calm t s"
  "calm t (s\<lparr>cache := m\<rparr>) = calm t s"
  by (simp_all add: calm_def)

lemma run_batches_calm:
  "calm t s \<Longrightarrow>
   \<exists>k. run_batches bs s r
        = (Inr (fold (\<lambda>d. AList.update (doc_uid d) (user_of_doc t d))
                  (concat (map (\<lambda>b. query_users_in b s) bs)) r),
           s\<lparr>ticks := ticks s + k, calls := calls s @ map QueryUsersIn bs\<rparr>)"
proof (induction bs arbitrary: s r)
  case Nil
  have "run_batches [] s r
        = (Inr (fold (\<lambda>d. AList.update (doc_uid d) (user_of_doc t d))
                  (concat (map (\<lambda>b. query_users_in b s) [])) r),
           s\<lparr>ticks := ticks s + 0, calls := calls s @ map QueryUsersIn []\<rparr>)" by simp
  then show ?case by blast
next
  case (Cons b bs)
  let ?s1 = "s\<lparr>calls := calls s @ [QueryUsersIn b]\<rparr>"
  let ?f = "\<lambda>d. AList.update (doc_uid d) (user_of_doc t d)"
  have c1: "\<forall>n. clock ?s1 n = t" using Cons.prems by (simp add: calm_def)
  from collect_docs_calm [OF c1, of "query_users_in b ?s1" r] obtain k1 where
    cd: "collect_docs (query_users_in b s) ?s1 r
          = (fold ?f (query_users_in b s) r, ?s1\<lparr>ticks := ticks s + k1\<rparr>)" by auto
  let ?s2 = "?s1\<lparr>ticks := ticks s + k1\<rparr>"
  have "calm t ?s2" using Cons.prems by simp
  from Cons.IH [OF this, of "fold ?f (query_users_in b s) r"] obtain k2 where
    ih: "run_batches bs ?s2 (fold ?f (query_users_in b s) r)
          = (Inr (fold ?f (concat (map (\<lambda>b. query_users_in b s) bs)) (fold ?f (query_users_in b s) r)),
             ?s2\<lparr>ticks := ticks ?s2 + k2, calls := calls ?s2 @ map QueryUsersIn bs\<rparr>)"
    by auto
  have nf: "\<not> faults s (length (calls s))" using Cons.prems by (simp add: calm_def)
  have "run_batches (b # bs) s r
        = (Inr (fold ?f (concat (map (\<lambda>b. query_users_in b s) (b # bs))) r),
           s\<lparr>ticks := ticks s + (k1 + k2), calls := calls s @ map QueryUsersIn (b # bs)\<rparr>)"
    using nf cd ih by (simp add: round_trip_def add.assoc)
  then show ?case by blast
qed

lemma check_cache_run:
  assumes "\<forall>u \<in> set us. \<forall>n. fresh_at (clock s n) (cache s) u = F u"
  shows "\<exists>k. check_cache us s r unc
          = (fold (\<lambda>u. AList.update u (user (the (map_of (cache s) u)))) (filter F us) r,
             unc @ filter (\<lambda>u. \<not> F u) us,
             s\<lparr>ticks := ticks s + k\<rparr>)"
  using assms
proof (induction us arbitrary: s r unc)
  case Nil
  have "check_cache [] s r unc
          = (fold (\<lambda>u. AList.update u (user (the (map_of (cache s) u)))) (filter F []) r,
             unc @ filter (\<lambda>u. \<not> F u) [], s\<lparr>ticks := ticks s + 0\<rparr>)" by simp
  then show ?case by blast
next
  case (Cons u us)
  from Cons.prems have fu: "\<forall>n. fresh_at (clock s n) (cache s) u = F u" by simp
  show ?case
  proof (cases "map_of (cache s) u")
    case None
    with fu have nF: "\<not> F u" by (simp add: fresh_at_def)
    from Cons.prems have "\<forall>u \<in> set us. \<forall>n. fresh_at (clock s n) (cache s) u = F u" by simp
    from Cons.IH [OF this, of r "unc @ [u]"] obtain k where
      "check_cache us s r (unc @ [u])
        = (fold (\<lambda>u. AList.update u (user (the (map_of (cache s) u)))) (filter F us) r,
           (unc @ [u]) @ filter (\<lambda>u. \<not> F u) us, s\<lparr>ticks := ticks s + k\<rparr>)" by blast
    with None nF have "check_cache (u # us) s r unc
        = (fold (\<lambda>u. AList.update u (user (the (map_of (cache s) u)))) (filter F (u # us)) r,
           unc @ filter (\<lambda>u. \<not> F u) (u # us), s\<lparr>ticks := ticks s + k\<rparr>)" by simp
    then show ?thesis by blast
  next
    case (Some e)
    let ?s1 = "s\<lparr>ticks := Suc (ticks s)\<rparr>"
    from fu Some have Fu: "F u = (clock s (ticks s) - timestamp e < CACHE_TTL)"
      by (auto simp: fresh_at_def)
    from Cons.prems have p1: "\<forall>u \<in> set us. \<forall>n. fresh_at (clock ?s1 n) (cache ?s1) u = F u" by simp
    show ?thesis
    proof (cases "F u")
      case True
      from Cons.IH [OF p1, of "AList.update u (user e) r" unc] obtain k where
        "check_cache us ?s1 (AList.update u (user e) r) unc
          = (fold (\<lambda>u. AList.update u (user (the (map_of (cache s) u)))) (filter F us)
               (AList.update u (user e) r),
             unc @ filter (\<lambda>u. \<not> F u) us, ?s1\<lparr>ticks := ticks ?s1 + k\<rparr>)" by auto
      with Some True Fu have "check_cache (u # us) s r unc
          = (fold (\<lambda>u. AList.update u (user (the (map_of (cache s) u)))) (filter F (u # us)) r,
             unc @ filter (\<lambda>u. \<not> F u) (u # us), s\<lparr>ticks := ticks s + Suc k\<rparr>)"
        by (simp add: date_now_def)
      then show ?thesis by blast
    next
      case False
      from Cons.IH [OF p1, of r "unc @ [u]"] obtain k where
        "check_cache us ?s1 r (unc @ [u])
          = (fold (\<lambda>u. AList.update u (user (the (map_of (cache s) u)))) (filter F us) r,
             (unc @ [u]) @ filter (\<lambda>u. \<not> F u) us, ?s1\<lparr>ticks := ticks ?s1 + k\<rparr>)" by auto
      with Some False Fu have "check_cache (u # us) s r unc
          = (fold (\<lambda>u. AList.update u (user (the (map_of (cache s) u)))) (filter F (u # us)) r,
             unc @ filter (\<lambda>u. \<not> F u) (u # us), s\<lparr>ticks := ticks s + Suc k\<rparr>)"
        by (simp add: date_now_def)
      then show ?thesis by blast
    qed
  qed
qed

lemma fill_cache_run:
  "fill_cache kvs s r = (fold (\<lambda>p. AList.update (fst p) (snd p)) kvs r, setUsers kvs s)"
  by (induction kvs arbitrary: s r) (auto simp: setUsers_def)

text \<open>Lookups in a mapping built by successive \<^verbatim>\<open>set\<close>s.\<close>

lemma map_of_fold_update:
  "map_of (fold (\<lambda>p. AList.update (fst p) (snd p)) kvs r) u
     = (case map_of (rev kvs) u of None \<Rightarrow> map_of r u | Some v \<Rightarrow> Some v)"
proof (induction kvs arbitrary: r)
  case Nil
  then show ?case by simp
next
  case (Cons p kvs)
  show ?case
    by (simp add: Cons.IH update_conv' map_add_def split: option.splits)
qed

lemma find_append':
  "List.find P (xs @ ys) = (case List.find P xs of None \<Rightarrow> List.find P ys | Some x \<Rightarrow> Some x)"
  by (induction xs) auto

lemma map_of_rev_map_find:
  "map_of (rev (map (\<lambda>d. (g d, f d)) ds)) u = map_option f (List.find (\<lambda>d. g d = u) (rev ds))"
proof (induction ds)
  case Nil
  then show ?case by simp
next
  case (Cons d ds)
  then show ?case
    by (auto simp: find_append' map_add_def split: option.splits)
qed

lemma map_of_fold_docs:
  "map_of (fold (\<lambda>d. AList.update (g d) (f d)) ds r) u
     = (case List.find (\<lambda>d. g d = u) (rev ds) of None \<Rightarrow> map_of r u | Some d \<Rightarrow> Some (f d))"
proof -
  have "fold (\<lambda>d. AList.update (g d) (f d)) ds r
          = fold (\<lambda>p. AList.update (fst p) (snd p)) (map (\<lambda>d. (g d, f d)) ds) r"
    by (simp add: fold_map comp_def)
  then show ?thesis
    by (simp add: map_of_fold_update rev_map [symmetric] map_of_rev_map_find split: option.splits)
qed

lemma find_rev_filter:
  "List.find (\<lambda>d. g d = u) (rev (filter (\<lambda>d. g d \<in> B) ds))
     = (if u \<in> B then List.find (\<lambda>d. g d = u) (rev ds) else None)"
proof (induction ds)
  case Nil
  then show ?case by simp
next
  case (Cons d ds)
  then show ?case by (auto simp: find_append' split: option.splits)
qed

lemma find_rev_concat_filter:
  "List.find (\<lambda>d. g d = u) (rev (concat (map (\<lambda>b. filter (\<lambda>d. g d \<in> set b) ds) bs)))
     = (if u \<in> set (concat bs) then List.find (\<lambda>d. g d = u) (rev ds) else None)"
proof (induction bs)
  case Nil
  then show ?case by simp
next
  case (Cons b bs)
  then show ?case
    by (auto simp: find_append' find_rev_filter split: option.splits)
qed

lemma concat_batches_from: "concat (batches_from i uids) = drop i uids"
proof (induction i uids rule: batches_from.induct)
  case (1 i uids)
  show ?case
  proof (cases "i < length uids")
    case True
    have "take 10 (drop i uids) @ drop (i + 10) uids = drop i uids"
      by (metis add.commute append_take_drop_id drop_drop)
    with 1 True show ?thesis by (subst batches_from.simps) simp
  next
    case False
    then show ?thesis by (subst batches_from.simps) simp
  qed
qed

lemma map_of_rev_distinct:
  "distinct (map fst xs) \<Longrightarrow> map_of (rev xs) = map_of xs"
proof (induction xs)
  case Nil
  then show ?case by simp
next
  case (Cons x xs)
  then have n: "map_of xs (fst x) = None" by (simp add: map_of_eq_None_iff)
  from Cons have ih: "map_of (rev xs) = map_of xs" by simp
  show ?case
  proof
    fix k
    show "map_of (rev (x # xs)) k = map_of (x # xs) k"
      using n ih by (cases x) (auto simp: map_add_def split: option.splits)
  qed
qed

lemma distinct_fold_update:
  "distinct (map fst r) \<Longrightarrow> distinct (map fst (fold (\<lambda>d. AList.update (g d) (f d)) ds r))"
  by (induction ds arbitrary: r) (simp_all add: distinct_update)

lemma set_fold_update:
  "set (fold (\<lambda>d. AList.update (g d) (f d)) ds r) \<subseteq> set r \<union> (\<lambda>d. (g d, f d)) ` set ds"
proof (induction ds arbitrary: r)
  case Nil
  then show ?case by simp
next
  case (Cons d ds)
  have "set (fold (\<lambda>d. AList.update (g d) (f d)) ds (AList.update (g d) (f d) r))
          \<subseteq> set (AList.update (g d) (f d) r) \<union> (\<lambda>d. (g d, f d)) ` set ds"
    by (rule Cons.IH)
  also have "\<dots> \<subseteq> insert (g d, f d) (set r) \<union> (\<lambda>d. (g d, f d)) ` set ds"
    using update_set_subset [of "g d" "f d" r] by auto
  finally show ?case by auto
qed

lemma find_eq_self:
  "List.find (\<lambda>x. x = u) xs = (if u \<in> set xs then Some u else None)"
  by (induction xs) auto

text \<open>\<^verbatim>\<open>getUsers\<close> in a quiet run, in one equation.\<close>

lemma getUsers_calm:
  assumes "calm t s"
  shows "\<exists>k. getUsers ids s =
     (Inr (fold (\<lambda>p. AList.update (fst p) (snd p))
             (profiles_of t (concat (map (\<lambda>b. query_users_in b s)
                (batches_from 0 (filter (\<lambda>u. \<not> fresh_at t (cache s) u) ids)))))
             (fold (\<lambda>u. AList.update u (user (the (map_of (cache s) u))))
                (filter (fresh_at t (cache s)) ids) [])),
      setUsers
        (profiles_of t (concat (map (\<lambda>b. query_users_in b s)
           (batches_from 0 (filter (\<lambda>u. \<not> fresh_at t (cache s) u) ids)))))
        (s\<lparr>ticks := ticks s + k,
           calls := calls s @ map QueryUsersIn
             (batches_from 0 (filter (\<lambda>u. \<not> fresh_at t (cache s) u) ids))\<rparr>))"
proof -
  let ?F = "fresh_at t (cache s)"
  let ?unc = "filter (\<lambda>u. \<not> ?F u) ids"
  let ?cp = "fold (\<lambda>u. AList.update u (user (the (map_of (cache s) u)))) (filter ?F ids) []"
  let ?bs = "batches_from 0 ?unc"
  let ?fetched = "profiles_of t (concat (map (\<lambda>b. query_users_in b s) ?bs))"
  from assms have "\<forall>u \<in> set ids. \<forall>n. fresh_at (clock s n) (cache s) u = ?F u"
    by (simp add: calm_def)
  from check_cache_run [OF this, of "[]" "[]"] obtain k1 where
    cc: "check_cache ids s [] [] = (?cp, ?unc, s\<lparr>ticks := ticks s + k1\<rparr>)" by auto
  let ?s1 = "s\<lparr>ticks := ticks s + k1\<rparr>"
  show ?thesis
  proof (cases "?unc = []")
    case True
    then have b: "?bs = []" by (subst batches_from.simps) simp
    have "getUsers ids s = (Inr ?cp, ?s1)"
      using cc True by (simp add: getUsers_def)
    then have "getUsers ids s =
      (Inr (fold (\<lambda>p. AList.update (fst p) (snd p)) ?fetched ?cp),
       setUsers ?fetched (s\<lparr>ticks := ticks s + k1, calls := calls s @ map QueryUsersIn ?bs\<rparr>))"
      unfolding b by (simp add: profiles_of_def setUsers_def)
    then show ?thesis by blast
  next
    case False
    have c1: "calm t ?s1" using assms by simp
    from run_batches_calm [OF c1, of ?bs "[]"] obtain k2 where
      rb: "run_batches ?bs ?s1 []
            = (Inr ?fetched, ?s1\<lparr>ticks := ticks ?s1 + k2, calls := calls ?s1 @ map QueryUsersIn ?bs\<rparr>)"
      by (auto simp: profiles_of_def)
    have db: "db_ok ?s1" using assms by (simp add: calm_def)
    have "getUsers ids s =
      (Inr (fold (\<lambda>p. AList.update (fst p) (snd p)) ?fetched ?cp),
       setUsers ?fetched (s\<lparr>ticks := ticks s + (k1 + k2), calls := calls s @ map QueryUsersIn ?bs\<rparr>))"
      using cc False rb db
      by (simp add: getUsers_def batchGetUsers_def fill_cache_run add.assoc)
    then show ?thesis by blast
  qed
qed

lemma map_of_fetched:
  "map_of (profiles_of t (concat (map (\<lambda>b. query_users_in b s) (batches_from 0 unc)))) u
     = (if u \<in> set unc then map_option (user_of_doc t) (store_lookup s u) else None)"
proof -
  have "List.find (\<lambda>d. doc_uid d = u)
          (rev (concat (map (\<lambda>b. filter (\<lambda>d. doc_uid d \<in> set b) (map snd (users s))) (batches_from 0 unc))))
        = (if u \<in> set unc then store_lookup s u else None)"
    by (simp add: find_rev_concat_filter concat_batches_from store_lookup_def)
  then show ?thesis
    unfolding profiles_of_def query_users_in_def
    by (simp add: map_of_fold_docs split: option.splits)
qed

lemma distinct_profiles_of: "distinct (map fst (profiles_of t ds))"
  unfolding profiles_of_def by (rule distinct_fold_update) simp

lemma map_of_cached_part:
  "map_of (fold (\<lambda>u. AList.update u (h u)) us []) u = (if u \<in> set us then Some (h u) else None)"
  using map_of_fold_docs [of "\<lambda>x. x" h us "[]" u]
  by (simp add: find_eq_self)

lemma getUsers_calm_lookup:
  assumes "calm t s" "getUsers ids s = (Inr result, s')"
  shows "map_of result u =
     (if u \<in> set ids then
        (if fresh_at t (cache s) u then map_option user (map_of (cache s) u)
         else map_option (user_of_doc t) (store_lookup s u))
      else None)"
proof -
  let ?F = "fresh_at t (cache s)"
  let ?unc = "filter (\<lambda>u. \<not> ?F u) ids"
  let ?cp = "fold (\<lambda>u. AList.update u (user (the (map_of (cache s) u)))) (filter ?F ids) []"
  let ?fetched = "profiles_of t (concat (map (\<lambda>b. query_users_in b s) (batches_from 0 ?unc)))"
  from getUsers_calm [OF assms(1), of ids] assms(2)
  have r: "result = fold (\<lambda>p. AList.update (fst p) (snd p)) ?fetched ?cp" by auto
  have f: "map_of (rev ?fetched) u = (if u \<in> set ?unc then map_option (user_of_doc t) (store_lookup s u) else None)"
    by (simp only: map_of_rev_distinct [OF distinct_profiles_of] map_of_fetched)
  have c: "map_of ?cp u = (if u \<in> set ids \<and> ?F u then Some (user (the (map_of (cache s) u))) else None)"
    by (simp add: map_of_cached_part)
  have e: "?F u \<Longrightarrow> Some (user (the (map_of (cache s) u))) = map_option user (map_of (cache s) u)"
    by (auto simp: fresh_at_def split: option.splits)
  show ?thesis
    unfolding r map_of_fold_update f c using e
    by (auto split: option.splits)
qed

lemma map_of_filter_keep:
  "map_of al k = Some e \<Longrightarrow> P (k, e) \<Longrightarrow> map_of (filter P al) k = Some e"
  by (induction al) (auto split: if_splits)

lemma setUser_other_kept:
  assumes "map_of (cache s) k = Some e" "k \<noteq> u"
    "clock s (ticks s) - timestamp e < CACHE_TTL"
  shows "map_of (cache (setUser u usr s)) k = Some e"
proof (cases "length (cache s) < MAX_CACHE_SIZE")
  case True
  with assms show ?thesis by (simp add: setUser_cache_small update_conv')
next
  case False
  then have f: "MAX_CACHE_SIZE \<le> length (cache s)" by simp
  have "map_of (filter (\<lambda>p. clock s (ticks s) - timestamp (snd p) < CACHE_TTL) (cache s)) k = Some e"
    using assms by (intro map_of_filter_keep) simp_all
  with assms f show ?thesis by (simp add: setUser_cache_full update_conv')
qed

lemma setUser_clock [simp]: "clock (setUser u usr s) = clock s"
  using setUser_frame by simp

lemma setUsers_snoc: "setUsers (kvs @ [p]) s = setUser (fst p) (snd p) (setUsers kvs s)"
  by (simp add: setUsers_def)

lemma setUsers_clock [simp]: "clock (setUsers kvs s) = clock s"
  by (induction kvs rule: rev_induct) (simp_all add: setUsers_snoc, simp add: setUsers_def)

lemma setUsers_frame:
  "calls (setUsers kvs s) = calls s \<and> users (setUsers kvs s) = users s
   \<and> posts (setUsers kvs s) = posts s \<and> db_ok (setUsers kvs s) = db_ok s
   \<and> faults (setUsers kvs s) = faults s \<and> console (setUsers kvs s) = console s
   \<and> detached (setUsers kvs s) = detached s"
proof (induction kvs rule: rev_induct)
  case Nil
  then show ?case by (simp add: setUsers_def)
next
  case (snoc p kvs)
  then show ?case using setUser_frame [of "fst p" "snd p" "setUsers kvs s"]
    by (simp add: setUsers_snoc)
qed

lemma setUser_lookup_calm:
  assumes "\<forall>n. clock s n = t"
  shows "map_of (cache (setUser u usr s)) u = Some \<lparr>user = usr, timestamp = t\<rparr>"
  using setUser_lookup [of s u usr] assms by auto

lemma setUsers_lookup_calm:
  assumes "\<forall>n. clock s n = t"
  shows "map_of (rev kvs) k = Some v \<Longrightarrow>
         map_of (cache (setUsers kvs s)) k = Some \<lparr>user = v, timestamp = t\<rparr>"
proof (induction kvs rule: rev_induct)
  case Nil
  then show ?case by simp
next
  case (snoc p kvs)
  let ?s1 = "setUsers kvs s"
  have c: "\<forall>n. clock ?s1 n = t" using assms by simp
  show ?case
  proof (cases "k = fst p")
    case True
    with snoc.prems have "v = snd p" by simp
    with True setUser_lookup_calm [OF c, of "fst p" "snd p"] show ?thesis
      by (simp add: setUsers_snoc)
  next
    case False
    with snoc.prems have "map_of (rev kvs) k = Some v" by (simp add: map_add_def split: option.splits if_splits)
    then have ih: "map_of (cache ?s1) k = Some \<lparr>user = v, timestamp = t\<rparr>" by (rule snoc.IH)
    have "clock ?s1 (ticks ?s1) - timestamp \<lparr>user = v, timestamp = t\<rparr> < CACHE_TTL"
      using c by (simp add: CACHE_TTL_def)
    from setUser_other_kept [OF ih False this] show ?thesis by (simp add: setUsers_snoc)
  qed
qed

lemma setUser_entries:
  "set (cache (setUser u usr s)) \<subseteq>
     set (cache s) \<union> {(u, \<lparr>user = usr, timestamp = clock s n\<rparr>) | n. True}"
proof (cases "length (cache s) < MAX_CACHE_SIZE")
  case True
  with update_set_subset [of u "\<lparr>user = usr, timestamp = clock s (ticks s)\<rparr>" "cache s"]
  show ?thesis by (auto simp: setUser_cache_small)
next
  case False
  then have f: "MAX_CACHE_SIZE \<le> length (cache s)" by simp
  let ?c = "filter (\<lambda>p. clock s (ticks s) - timestamp (snd p) < CACHE_TTL) (cache s)"
  from update_set_subset [of u "\<lparr>user = usr, timestamp = clock s (Suc (ticks s))\<rparr>" ?c]
  show ?thesis unfolding setUser_cache_full [OF f] by auto
qed

lemma setUsers_entries_calm:
  assumes "\<forall>n. clock s n = t"
  shows "set (cache (setUsers kvs s)) \<subseteq>
     set (cache s) \<union> (\<lambda>p. (fst p, \<lparr>user = snd p, timestamp = t\<rparr>)) ` set kvs"
proof (induction kvs rule: rev_induct)
  case Nil
  then show ?case by (simp add: setUsers_def)
next
  case (snoc p kvs)
  let ?s1 = "setUsers kvs s"
  have c: "\<forall>n. clock ?s1 n = t" using assms by simp
  have "set (cache (setUser (fst p) (snd p) ?s1)) \<subseteq>
     set (cache ?s1) \<union> {(fst p, \<lparr>user = snd p, timestamp = t\<rparr>)}"
    using setUser_entries [of "fst p" "snd p" ?s1] c by auto
  with snoc.IH show ?case by (auto simp: setUsers_snoc)
qed

lemma store_lookup_frame [simp]:
  "store_lookup (s\<lparr>cache := c\<rparr>) = store_lookup s"
  by (rule ext) (simp add: store_lookup_def)

lemma getUsers_calm_total:
  assumes "calm t s"
  shows "\<exists>result s'. getUsers ids s = (Inr result, s')"
  using getUsers_calm [OF assms, of ids] by blast

lemma getUsers_calm_cache:
  assumes "calm t s" "getUsers ids s = (Inr result, s')"
    "u \<in> set ids" "\<not> fresh_at t (cache s) u" "store_lookup s u = Some d"
  shows "map_of (cache s') u = Some \<lparr>user = user_of_doc t d, timestamp = t\<rparr>"
proof -
  let ?unc = "filter (\<lambda>u. \<not> fresh_at t (cache s) u) ids"
  let ?bs = "batches_from 0 ?unc"
  let ?fetched = "profiles_of t (concat (map (\<lambda>b. query_users_in b s) ?bs))"
  from getUsers_calm [OF assms(1), of ids] assms(2) obtain k where
    s': "s' = setUsers ?fetched (s\<lparr>ticks := ticks s + k, calls := calls s @ map QueryUsersIn ?bs\<rparr>)"
    by auto
  have "map_of (rev ?fetched) u = Some (user_of_doc t d)"
    using assms(3,4,5)
    by (simp only: map_of_rev_distinct [OF distinct_profiles_of] map_of_fetched) simp
  moreover have "\<forall>n. clock (s\<lparr>ticks := ticks s + k, calls := calls s @ map QueryUsersIn ?bs\<rparr>) n = t"
    using assms(1) by (simp add: calm_def)
  ultimately show ?thesis unfolding s' by (intro setUsers_lookup_calm)
qed

subsection \<open>Claim C5: the result of \<^verbatim>\<open>getUsers\<close>\<close>

text \<open>
  C5, as amended. In a quiet run (store initialised, no round trip rejected, the clock
  reading \<open>t\<close> throughout), \<^verbatim>\<open>getUsers\<close> returns a mapping, never an error, whose
  keys are exactly the requested ids that are fresh in the cache or have a document in
  the store; an id without a profile is absent from it. A fresh id maps to its cached
  profile and every other id to the profile read from the store. Hence the mapping is
  the same for any two cache states that agree with the store on the ids (all fresh,
  all cold or a mixture), and every profile fetched from the store is in the cache
  afterwards, stamped with the time of the call. The claim as stated, for every cache
  state, fails: a fresh entry that is older than the stored profile is served as it is
  cached (see the counterexample below).
\<close>

theorem getUsers_result:
  assumes "calm t s"
  shows "\<exists>result s'. getUsers ids s = (Inr result, s')
     \<and> fst ` set result = {u \<in> set ids. fresh_at t (cache s) u \<or> store_lookup s u \<noteq> None}
     \<and> (\<forall>u. map_of result u =
           (if u \<in> set ids then
              (if fresh_at t (cache s) u then map_option user (map_of (cache s) u)
               else map_option (user_of_doc t) (store_lookup s u))
            else None))
     \<and> (\<forall>c. coherent t ids s \<and> coherent t ids (s\<lparr>cache := c\<rparr>) \<longrightarrow>
           (\<exists>result2 s2. getUsers ids (s\<lparr>cache := c\<rparr>) = (Inr result2, s2)
              \<and> map_of result2 = map_of result))
     \<and> (\<forall>u \<in> set ids. \<forall>d. \<not> fresh_at t (cache s) u \<and> store_lookup s u = Some d \<longrightarrow>
           map_of (cache s') u = Some \<lparr>user = user_of_doc t d, timestamp = t\<rparr>)"
proof -
  from getUsers_calm_total [OF assms, of ids] obtain result s' where
    g: "getUsers ids s = (Inr result, s')" by blast
  note look = getUsers_calm_lookup [OF assms g]
  have fr: "\<And>u. fresh_at t (cache s) u \<Longrightarrow> map_option user (map_of (cache s) u) \<noteq> None"
    by (auto simp: fresh_at_def split: option.splits)
  have keys: "fst ` set result = {u \<in> set ids. fresh_at t (cache s) u \<or> store_lookup s u \<noteq> None}"
  proof -
    have "fst ` set result = dom (map_of result)" by (simp add: dom_map_of_conv_image_fst)
    also have "\<dots> = {u \<in> set ids. fresh_at t (cache s) u \<or> store_lookup s u \<noteq> None}"
      using fr by (auto simp: dom_def look split: if_splits)
    finally show ?thesis .
  qed
  have co: "\<And>s0 r0 u. calm t s0 \<Longrightarrow> coherent t ids s0 \<Longrightarrow> getUsers ids s0 = (Inr r0, s') \<Longrightarrow>
      map_of r0 u = (if u \<in> set ids then map_option (user_of_doc t) (store_lookup s0 u) else None)" for s'
    by (auto simp: getUsers_calm_lookup coherent_def list_all_iff)
  have same: "\<forall>c. coherent t ids s \<and> coherent t ids (s\<lparr>cache := c\<rparr>) \<longrightarrow>
           (\<exists>result2 s2. getUsers ids (s\<lparr>cache := c\<rparr>) = (Inr result2, s2)
              \<and> map_of result2 = map_of result)"
  proof (intro allI impI)
    fix c assume a: "coherent t ids s \<and> coherent t ids (s\<lparr>cache := c\<rparr>)"
    have c2: "calm t (s\<lparr>cache := c\<rparr>)" using assms by simp
    from getUsers_calm_total [OF c2, of ids] obtain result2 s2 where
      g2: "getUsers ids (s\<lparr>cache := c\<rparr>) = (Inr result2, s2)" by blast
    have "map_of result2 u = map_of result u" for u
      using co [OF c2 _ g2, of u] co [OF assms _ g, of u] a by simp
    then have "map_of result2 = map_of result" by (rule ext)
    with g2 show "\<exists>result2 s2. getUsers ids (s\<lparr>cache := c\<rparr>) = (Inr result2, s2)
              \<and> map_of result2 = map_of result" by blast
  qed
  have fill: "\<forall>u \<in> set ids. \<forall>d. \<not> fresh_at t (cache s) u \<and> store_lookup s u = Some d \<longrightarrow>
           map_of (cache s') u = Some \<lparr>user = user_of_doc t d, timestamp = t\<rparr>"
    using getUsers_calm_cache [OF assms g] by blast
  from g keys look same fill show ?thesis by blast
qed

lemma wm_calm: "calm 100 world_mixed" by (simp add: calm_def world_mixed_def)

lemma wm_lookup:
  "store_lookup world_mixed ''U'' = Some alice" "store_lookup world_mixed ''V'' = Some bob"
  "store_lookup world_mixed ''W'' = None"
  by (simp_all add: store_lookup_def world_mixed_def alice_def bob_def)

lemma wm_fresh:
  "fresh_at 100 (cache world_mixed) ''U''" "\<not> fresh_at 100 (cache world_mixed) ''V''"
  "\<not> fresh_at 100 (cache world_mixed) ''W''"
  "map_of (cache world_mixed) ''U'' = Some \<lparr>user = user_of_doc 0 alice, timestamp = 0\<rparr>"
  by (simp_all add: fresh_at_def world_mixed_def CACHE_TTL_def)

lemma wm_alice: "user_of_doc 100 alice = user_of_doc 0 alice"
  by (simp add: user_of_doc_def alice_def)

lemma wm_coherent:
  "coherent 100 [''U'', ''V'', ''W''] world_mixed"
  "coherent 100 [''U'', ''V'', ''W''] (world_mixed\<lparr>cache := []\<rparr>)"
   apply (simp add: coherent_def wm_lookup wm_fresh wm_alice)
  apply (simp add: coherent_def fresh_at_def)
  done

theorem getUsers_result_witness:
  "calm 100 world_mixed
   \<and> coherent 100 [''U'', ''V'', ''W''] world_mixed
   \<and> coherent 100 [''U'', ''V'', ''W''] (world_mixed\<lparr>cache := []\<rparr>)
   \<and> (\<exists>result s'. getUsers [''U'', ''V'', ''W''] world_mixed = (Inr result, s')
        \<and> fst ` set result = {''U'', ''V''}
        \<and> map_of result ''U'' = Some (user_of_doc 0 alice)
        \<and> map_of result ''V'' = Some (user_of_doc 100 bob)
        \<and> map_of result ''W'' = None
        \<and> map_of (cache s') ''V'' = Some \<lparr>user = user_of_doc 100 bob, timestamp = 100\<rparr>
        \<and> (\<exists>result2 s2. getUsers [''U'', ''V'', ''W''] (world_mixed\<lparr>cache := []\<rparr>) = (Inr result2, s2)
              \<and> map_of result2 = map_of result))"
proof -
  from getUsers_result [OF wm_calm, of "[''U'', ''V'', ''W'']"] obtain result s' where
    g: "getUsers [''U'', ''V'', ''W''] world_mixed = (Inr result, s')" and
    ks: "fst ` set result = {u \<in> set [''U'', ''V'', ''W'']. fresh_at 100 (cache world_mixed) u
           \<or> store_lookup world_mixed u \<noteq> None}" and
    lk: "\<forall>u. map_of result u =
           (if u \<in> set [''U'', ''V'', ''W''] then
              (if fresh_at 100 (cache world_mixed) u then map_option user (map_of (cache world_mixed) u)
               else map_option (user_of_doc 100) (store_lookup world_mixed u))
            else None)" and
    sm: "\<forall>c. coherent 100 [''U'', ''V'', ''W''] world_mixed
             \<and> coherent 100 [''U'', ''V'', ''W''] (world_mixed\<lparr>cache := c\<rparr>) \<longrightarrow>
           (\<exists>result2 s2. getUsers [''U'', ''V'', ''W''] (world_mixed\<lparr>cache := c\<rparr>) = (Inr result2, s2)
              \<and> map_of result2 = map_of result)" and
    fl: "\<forall>u \<in> set [''U'', ''V'', ''W'']. \<forall>d. \<not> fresh_at 100 (cache world_mixed) u
             \<and> store_lookup world_mixed u = Some d \<longrightarrow>
           map_of (cache s') u = Some \<lparr>user = user_of_doc 100 d, timestamp = 100\<rparr>"
    by (elim exE conjE) (rule that)
  have k: "fst ` set result = {''U'', ''V''}"
    unfolding ks using wm_lookup wm_fresh by auto
  have u: "map_of result ''U'' = Some (user_of_doc 0 alice)"
    using spec [OF lk, of "''U''"] by (simp add: wm_fresh)
  have v: "map_of result ''V'' = Some (user_of_doc 100 bob)"
    using spec [OF lk, of "''V''"] by (simp add: wm_fresh wm_lookup)
  have w: "map_of result ''W'' = None"
    using spec [OF lk, of "''W''"] by (simp add: wm_fresh wm_lookup)
  have cv: "map_of (cache s') ''V'' = Some \<lparr>user = user_of_doc 100 bob, timestamp = 100\<rparr>"
    using bspec [OF fl, of "''V''"] by (simp add: wm_fresh wm_lookup)
  have two: "\<exists>result2 s2. getUsers [''U'', ''V'', ''W''] (world_mixed\<lparr>cache := []\<rparr>) = (Inr result2, s2)
              \<and> map_of result2 = map_of result"
    using spec [OF sm, of "[]"] wm_coherent by simp
  have "\<exists>result s'. getUsers [''U'', ''V'', ''W''] world_mixed = (Inr result, s')
        \<and> fst ` set result = {''U'', ''V''}
        \<and> map_of result ''U'' = Some (user_of_doc 0 alice)
        \<and> map_of result ''V'' = Some (user_of_doc 100 bob)
        \<and> map_of result ''W'' = None
        \<and> map_of (cache s') ''V'' = Some \<lparr>user = user_of_doc 100 bob, timestamp = 100\<rparr>
        \<and> (\<exists>result2 s2. getUsers [''U'', ''V'', ''W''] (world_mixed\<lparr>cache := []\<rparr>) = (Inr result2, s2)
              \<and> map_of result2 = map_of result)"
    using g k u v w cv two by (intro exI [of _ result] exI [of _ s']) simp
  with wm_calm wm_coherent show ?thesis by simp
qed

theorem getUsers_stale_cache_counterexample:
  "fst (getUsers [''U''] (world_at 0)) = Inr [(''U'', alice_old)]
   \<and> fst (getUsers [''U''] ((world_at 0)\<lparr>cache := []\<rparr>)) = Inr [(''U'', user_of_doc 0 alice)]
   \<and> alice_old \<noteq> user_of_doc 0 alice"
  by (simp add: getUsers_def world_at_def date_now_def CACHE_TTL_def batchGetUsers_def
      batches_from.simps round_trip_def query_users_in_def toUser_def alice_def alice_old_def
      user_of_doc_def setUser_def MAX_CACHE_SIZE_def)

lemma batches_from_23:
  assumes "length ids = 23"
  shows "batches_from 0 ids = [take 10 ids, take 10 (drop 10 ids), drop 20 ids]"
proof -
  have 1: "batches_from 0 ids = take 10 (drop 0 ids) # batches_from 10 ids"
    using assms by (subst batches_from.simps) simp
  have 2: "batches_from 10 ids = take 10 (drop 10 ids) # batches_from 20 ids"
    using assms by (subst batches_from.simps) simp
  have 3: "batches_from 20 ids = take 10 (drop 20 ids) # batches_from 30 ids"
    using assms by (subst batches_from.simps) simp
  have 4: "batches_from 30 ids = []"
    using assms by (subst batches_from.simps) simp
  have "take 10 (drop 20 ids) = drop 20 ids" using assms by simp
  with 1 2 3 4 show ?thesis by simp
qed

subsection \<open>Claim C6: twenty-three ids make three queries\<close>

text \<open>
  C6. In a quiet run, \<^verbatim>\<open>getUsers\<close> on a list of 23 ids none of which is fresh in the
  cache makes exactly three round trips, the queries for the first ten ids, the next
  ten and the last three, and returns the mapping that results from storing every
  document these three queries return under its \<^verbatim>\<open>uid\<close>. (That the ids are distinct
  is not needed.)
\<close>

theorem getUsers_23_ids:
  assumes "calm t s" "length ids = 23" "\<forall>u \<in> set ids. \<not> fresh_at t (cache s) u"
  shows "\<exists>result s'. getUsers ids s = (Inr result, s')
     \<and> calls s' = calls s @ [QueryUsersIn (take 10 ids), QueryUsersIn (take 10 (drop 10 ids)),
                              QueryUsersIn (drop 20 ids)]
     \<and> length (take 10 ids) = 10 \<and> length (take 10 (drop 10 ids)) = 10
     \<and> length (drop 20 ids) = 3
     \<and> map_of result = map_of (profiles_of t
          (query_users_in (take 10 ids) s @ query_users_in (take 10 (drop 10 ids)) s
             @ query_users_in (drop 20 ids) s))"
proof -
  let ?bs = "[take 10 ids, take 10 (drop 10 ids), drop 20 ids]"
  let ?fetched = "profiles_of t (concat (map (\<lambda>b. query_users_in b s) ?bs))"
  have unc: "filter (\<lambda>u. \<not> fresh_at t (cache s) u) ids = ids" using assms(3) by simp
  have cp: "filter (fresh_at t (cache s)) ids = []" using assms(3) by simp
  from getUsers_calm [OF assms(1), of ids] obtain k where
    g: "getUsers ids s =
      (Inr (fold (\<lambda>p. AList.update (fst p) (snd p)) ?fetched []),
       setUsers ?fetched (s\<lparr>ticks := ticks s + k, calls := calls s @ map QueryUsersIn ?bs\<rparr>))"
    unfolding unc cp batches_from_23 [OF assms(2)] by auto
  let ?result = "fold (\<lambda>p. AList.update (fst p) (snd p)) ?fetched []"
  let ?s' = "setUsers ?fetched (s\<lparr>ticks := ticks s + k, calls := calls s @ map QueryUsersIn ?bs\<rparr>)"
  have c: "calls ?s' = calls s @ [QueryUsersIn (take 10 ids), QueryUsersIn (take 10 (drop 10 ids)),
                              QueryUsersIn (drop 20 ids)]"
    using setUsers_frame [of ?fetched "s\<lparr>ticks := ticks s + k, calls := calls s @ map QueryUsersIn ?bs\<rparr>"]
    by simp
  have m: "map_of ?result = map_of ?fetched"
  proof
    fix u show "map_of ?result u = map_of ?fetched u"
      by (simp add: map_of_fold_update map_of_rev_distinct [OF distinct_profiles_of]
            split: option.splits)
  qed
  have l: "length (take 10 ids) = 10 \<and> length (take 10 (drop 10 ids)) = 10 \<and> length (drop 20 ids) = 3"
    using assms(2) by simp
  have "getUsers ids s = (Inr ?result, ?s')
     \<and> calls ?s' = calls s @ [QueryUsersIn (take 10 ids), QueryUsersIn (take 10 (drop 10 ids)),
                              QueryUsersIn (drop 20 ids)]
     \<and> length (take 10 ids) = 10 \<and> length (take 10 (drop 10 ids)) = 10
     \<and> length (drop 20 ids) = 3
     \<and> map_of ?result = map_of (profiles_of t
          (query_users_in (take 10 ids) s @ query_users_in (take 10 (drop 10 ids)) s
             @ query_users_in (drop 20 ids) s))"
    using g c m l by simp
  then show ?thesis by (intro exI [of _ ?result] exI [of _ ?s'])
qed

theorem getUsers_23_ids_witness:
  "length ids23 = 23 \<and> distinct ids23 \<and> calm 100 (world_mixed\<lparr>cache := []\<rparr>)
   \<and> (\<exists>result s'. getUsers ids23 (world_mixed\<lparr>cache := []\<rparr>) = (Inr result, s')
        \<and> calls s' =
            [QueryUsersIn [''U'', ''b'', ''c'', ''d'', ''e'', ''f'', ''g'', ''h'', ''i'', ''j''],
             QueryUsersIn [''k'', ''l'', ''m'', ''n'', ''o'', ''p'', ''q'', ''r'', ''s'', ''t''],
             QueryUsersIn [''u'', ''v'', ''V'']]
        \<and> map_of result = map_of [(''U'', user_of_doc 100 alice), (''V'', user_of_doc 100 bob)])"
proof -
  let ?w = "world_mixed\<lparr>cache := []\<rparr>"
  have c: "calm 100 ?w" by (simp add: calm_def world_mixed_def)
  have n: "length ids23 = 23" by (simp add: ids23_def)
  have d: "distinct ids23" by (simp add: ids23_def)
  have f: "\<forall>u \<in> set ids23. \<not> fresh_at 100 (cache ?w) u" by (simp add: fresh_at_def)
  have q: "query_users_in (take 10 ids23) ?w = [alice]"
    "query_users_in (take 10 (drop 10 ids23)) ?w = []"
    "query_users_in (drop 20 ids23) ?w = [bob]"
    by (simp_all add: query_users_in_def ids23_def world_mixed_def alice_def bob_def)
  have p: "profiles_of 100 ([alice] @ [] @ [bob])
            = [(''U'', user_of_doc 100 alice), (''V'', user_of_doc 100 bob)]"
    by (simp add: profiles_of_def alice_def bob_def)
  have e: "calls ?w = []" by (simp add: world_mixed_def)
  from getUsers_23_ids [OF c n f] obtain result s' where
    r: "getUsers ids23 ?w = (Inr result, s')"
       "calls s' = calls ?w @ [QueryUsersIn (take 10 ids23), QueryUsersIn (take 10 (drop 10 ids23)),
                              QueryUsersIn (drop 20 ids23)]"
       "map_of result = map_of (profiles_of 100
          (query_users_in (take 10 ids23) ?w @ query_users_in (take 10 (drop 10 ids23)) ?w
             @ query_users_in (drop 20 ids23) ?w))"
    by (elim exE conjE) (rule that)
  have r2: "calls s' =
            [QueryUsersIn [''U'', ''b'', ''c'', ''d'', ''e'', ''f'', ''g'', ''h'', ''i'', ''j''],
             QueryUsersIn [''k'', ''l'', ''m'', ''n'', ''o'', ''p'', ''q'', ''r'', ''s'', ''t''],
             QueryUsersIn [''u'', ''v'', ''V'']]"
    unfolding r(2) e by (simp add: ids23_def)
  have r3: "map_of result = map_of [(''U'', user_of_doc 100 alice), (''V'', user_of_doc 100 bob)]"
    unfolding r(3) q p ..
  have "\<exists>result s'. getUsers ids23 ?w = (Inr result, s')
        \<and> calls s' =
            [QueryUsersIn [''U'', ''b'', ''c'', ''d'', ''e'', ''f'', ''g'', ''h'', ''i'', ''j''],
             QueryUsersIn [''k'', ''l'', ''m'', ''n'', ''o'', ''p'', ''q'', ''r'', ''s'', ''t''],
             QueryUsersIn [''u'', ''v'', ''V'']]
        \<and> map_of result = map_of [(''U'', user_of_doc 100 alice), (''V'', user_of_doc 100 bob)]"
    using r(1) r2 r3 by (intro exI [of _ result] exI [of _ s']) simp
  with n d c show ?thesis by simp
qed

lemma getUser_absent:
  assumes "calm t s" "\<not> fresh_at t (cache s) u" "map_of (users s) u = None"
  shows "\<exists>j. getUser u s
           = (Inr None, s\<lparr>ticks := ticks s + j, calls := calls s @ [GetDoc ''users'' u]\<rparr>)"
proof (cases "map_of (cache s) u")
  case None
  have "getUser_fetch u s = (Inr None, s\<lparr>calls := calls s @ [GetDoc ''users'' u]\<rparr>)"
    using assms by (intro getUser_fetch_none) (simp_all add: calm_def)
  with None have "getUser u s
           = (Inr None, s\<lparr>ticks := ticks s + 0, calls := calls s @ [GetDoc ''users'' u]\<rparr>)"
    by (simp add: getUser_def)
  then show ?thesis by blast
next
  case (Some e)
  let ?s0 = "s\<lparr>ticks := Suc (ticks s)\<rparr>"
  have "getUser_fetch u ?s0 = (Inr None, ?s0\<lparr>calls := calls ?s0 @ [GetDoc ''users'' u]\<rparr>)"
    using assms by (intro getUser_fetch_none) (simp_all add: calm_def)
  moreover have "\<not> clock s (ticks s) - timestamp e < CACHE_TTL"
    using assms Some by (simp add: calm_def fresh_at_def)
  ultimately have "getUser u s
           = (Inr None, s\<lparr>ticks := ticks s + 1, calls := calls s @ [GetDoc ''users'' u]\<rparr>)"
    using Some by (simp add: getUser_def date_now_def)
  then show ?thesis by blast
qed

lemma getUsers_calm_queries:
  assumes "calm t s" "u \<in> set ids" "\<not> fresh_at t (cache s) u"
  shows "\<exists>bs. calls (snd (getUsers ids s)) = calls s @ map QueryUsersIn bs
            \<and> (\<exists>b \<in> set bs. u \<in> set b)"
proof -
  let ?unc = "filter (\<lambda>u. \<not> fresh_at t (cache s) u) ids"
  let ?bs = "batches_from 0 ?unc"
  from getUsers_calm [OF assms(1), of ids] obtain k fetched where
    "snd (getUsers ids s)
       = setUsers fetched (s\<lparr>ticks := ticks s + k, calls := calls s @ map QueryUsersIn ?bs\<rparr>)"
    by force
  then have c: "calls (snd (getUsers ids s)) = calls s @ map QueryUsersIn ?bs"
    using setUsers_frame [of fetched "s\<lparr>ticks := ticks s + k, calls := calls s @ map QueryUsersIn ?bs\<rparr>"]
    by simp
  have "u \<in> set (concat ?bs)" using assms(2,3) by (simp add: concat_batches_from)
  then have "\<exists>b \<in> set ?bs. u \<in> set b" by auto
  with c show ?thesis by blast
qed

lemma getUsers_calm_entries:
  assumes "calm t s" "p \<in> set (cache (snd (getUsers ids s)))"
  shows "p \<in> set (cache s) \<or>
     (\<exists>d \<in> set (map snd (users s)).
        fst p = doc_uid d \<and> snd p = \<lparr>user = user_of_doc t d, timestamp = t\<rparr> \<and> fst p \<in> set ids)"
proof -
  let ?unc = "filter (\<lambda>u. \<not> fresh_at t (cache s) u) ids"
  let ?bs = "batches_from 0 ?unc"
  let ?docs = "concat (map (\<lambda>b. query_users_in b s) ?bs)"
  let ?fetched = "profiles_of t ?docs"
  from getUsers_calm [OF assms(1), of ids] obtain k where
    s': "snd (getUsers ids s)
       = setUsers ?fetched (s\<lparr>ticks := ticks s + k, calls := calls s @ map QueryUsersIn ?bs\<rparr>)"
    by force
  have cl: "\<forall>n. clock (s\<lparr>ticks := ticks s + k, calls := calls s @ map QueryUsersIn ?bs\<rparr>) n = t"
    using assms(1) by (simp add: calm_def)
  from setUsers_entries_calm [OF cl, of ?fetched] assms(2)
  have "p \<in> set (cache s) \<or> p \<in> (\<lambda>q. (fst q, \<lparr>user = snd q, timestamp = t\<rparr>)) ` set ?fetched"
    unfolding s' by auto
  then show ?thesis
  proof
    assume "p \<in> set (cache s)"
    then show ?thesis ..
  next
    assume "p \<in> (\<lambda>q. (fst q, \<lparr>user = snd q, timestamp = t\<rparr>)) ` set ?fetched"
    then obtain q where q: "q \<in> set ?fetched" "p = (fst q, \<lparr>user = snd q, timestamp = t\<rparr>)" by blast
    have "set ?fetched \<subseteq> (\<lambda>d. (doc_uid d, user_of_doc t d)) ` set ?docs"
      unfolding profiles_of_def
      using set_fold_update [of doc_uid "user_of_doc t" ?docs "[]"] by simp
    with q(1) obtain d where d: "d \<in> set ?docs" "q = (doc_uid d, user_of_doc t d)"
      by blast
    from d(1) obtain b where b: "b \<in> set ?bs" "d \<in> set (query_users_in b s)" by auto
    from b(1) have "set b \<subseteq> set (concat ?bs)" by auto
    then have sb: "set b \<subseteq> set ids" by (auto simp: concat_batches_from)
    from b(2) have "d \<in> set (map snd (users s))" "doc_uid d \<in> set b"
      by (auto simp: query_users_in_def)
    with sb q(2) d(2) show ?thesis by auto
  qed
qed

subsection \<open>Claim C10: absence is not cached\<close>

text \<open>
  C10, as amended. In a quiet run, for an id that has no document in the store and no
  fresh entry in the cache, \<^verbatim>\<open>getUser\<close> makes a point lookup, returns null and
  leaves the map as it was; so a second \<^verbatim>\<open>getUser\<close> makes the lookup again, and a
  \<^verbatim>\<open>getUsers\<close> whose list has the id sends it in one of its queries. Any
  \<^verbatim>\<open>getUsers\<close> sends every requested id that is not fresh in a query, and every
  entry of the map after it was there before or is a requested id with the profile of a
  document of the store, stamped with the time of the call. The claim as stated, for
  every id without a document in the store, fails for an id that still has a fresh
  entry: the cached profile is returned (see the counterexample below).
\<close>

theorem absence_not_cached:
  assumes "calm t s"
  shows "(\<not> fresh_at t (cache s) u \<and> map_of (users s) u = None \<longrightarrow>
            (\<exists>s1 s2. getUser u s = (Inr None, s1) \<and> cache s1 = cache s
               \<and> calls s1 = calls s @ [GetDoc ''users'' u]
               \<and> getUser u s1 = (Inr None, s2) \<and> cache s2 = cache s
               \<and> calls s2 = calls s @ [GetDoc ''users'' u, GetDoc ''users'' u]
               \<and> (u \<in> set ids \<longrightarrow>
                    (\<exists>bs. calls (snd (getUsers ids s1)) = calls s1 @ map QueryUsersIn bs
                       \<and> (\<exists>b \<in> set bs. u \<in> set b)))))
     \<and> (u \<in> set ids \<and> \<not> fresh_at t (cache s) u \<longrightarrow>
            (\<exists>bs. calls (snd (getUsers ids s)) = calls s @ map QueryUsersIn bs
               \<and> (\<exists>b \<in> set bs. u \<in> set b)))
     \<and> (\<forall>p \<in> set (cache (snd (getUsers ids s))).
            p \<in> set (cache s) \<or>
            (\<exists>d \<in> set (map snd (users s)).
               fst p = doc_uid d \<and> snd p = \<lparr>user = user_of_doc t d, timestamp = t\<rparr>
               \<and> fst p \<in> set ids))"
proof (intro conjI impI ballI)
  assume a: "\<not> fresh_at t (cache s) u \<and> map_of (users s) u = None"
  from a have a1: "\<not> fresh_at t (cache s) u" and a2: "map_of (users s) u = None" by simp_all
  from getUser_absent [OF assms a1 a2] obtain j where
    g1: "getUser u s = (Inr None, s\<lparr>ticks := ticks s + j, calls := calls s @ [GetDoc ''users'' u]\<rparr>)"
    by blast
  let ?s1 = "s\<lparr>ticks := ticks s + j, calls := calls s @ [GetDoc ''users'' u]\<rparr>"
  have c1: "calm t ?s1" using assms by (simp add: calm_def)
  have f1: "\<not> fresh_at t (cache ?s1) u" "map_of (users ?s1) u = None" using a by simp_all
  from getUser_absent [OF c1 f1] obtain j2 where
    g2: "getUser u ?s1
      = (Inr None, ?s1\<lparr>ticks := ticks ?s1 + j2, calls := calls ?s1 @ [GetDoc ''users'' u]\<rparr>)"
    by blast
  let ?s2 = "?s1\<lparr>ticks := ticks ?s1 + j2, calls := calls ?s1 @ [GetDoc ''users'' u]\<rparr>"
  have q: "u \<in> set ids \<longrightarrow>
             (\<exists>bs. calls (snd (getUsers ids ?s1)) = calls ?s1 @ map QueryUsersIn bs
                \<and> (\<exists>b \<in> set bs. u \<in> set b))"
    using getUsers_calm_queries [OF c1 _ f1(1), of ids] by blast
  have "getUser u s = (Inr None, ?s1) \<and> cache ?s1 = cache s
               \<and> calls ?s1 = calls s @ [GetDoc ''users'' u]
               \<and> getUser u ?s1 = (Inr None, ?s2) \<and> cache ?s2 = cache s
               \<and> calls ?s2 = calls s @ [GetDoc ''users'' u, GetDoc ''users'' u]
               \<and> (u \<in> set ids \<longrightarrow>
                    (\<exists>bs. calls (snd (getUsers ids ?s1)) = calls ?s1 @ map QueryUsersIn bs
                       \<and> (\<exists>b \<in> set bs. u \<in> set b)))"
    using g1 g2 q by simp
  then show "\<exists>s1 s2. getUser u s = (Inr None, s1) \<and> cache s1 = cache s
               \<and> calls s1 = calls s @ [GetDoc ''users'' u]
               \<and> getUser u s1 = (Inr None, s2) \<and> cache s2 = cache s
               \<and> calls s2 = calls s @ [GetDoc ''users'' u, GetDoc ''users'' u]
               \<and> (u \<in> set ids \<longrightarrow>
                    (\<exists>bs. calls (snd (getUsers ids s1)) = calls s1 @ map QueryUsersIn bs
                       \<and> (\<exists>b \<in> set bs. u \<in> set b)))"
    by (intro exI [of _ ?s1] exI [of _ ?s2])
next
  assume "u \<in> set ids \<and> \<not> fresh_at t (cache s) u"
  then show "\<exists>bs. calls (snd (getUsers ids s)) = calls s @ map QueryUsersIn bs
               \<and> (\<exists>b \<in> set bs. u \<in> set b)"
    using getUsers_calm_queries [OF assms, of u ids] by blast
next
  fix p assume "p \<in> set (cache (snd (getUsers ids s)))"
  then show "p \<in> set (cache s) \<or>
            (\<exists>d \<in> set (map snd (users s)).
               fst p = doc_uid d \<and> snd p = \<lparr>user = user_of_doc t d, timestamp = t\<rparr>
               \<and> fst p \<in> set ids)"
    by (rule getUsers_calm_entries [OF assms])
qed

theorem absence_not_cached_witness:
  "calm 100 world_mixed \<and> \<not> fresh_at 100 (cache world_mixed) ''W''
   \<and> map_of (users world_mixed) ''W'' = None
   \<and> fst (getUser ''W'' world_mixed) = Inr None
   \<and> cache (snd (getUser ''W'' world_mixed)) = cache world_mixed
   \<and> calls (snd (getUser ''W'' (snd (getUser ''W'' world_mixed))))
       = [GetDoc ''users'' ''W'', GetDoc ''users'' ''W'']
   \<and> calls (snd (getUsers [''U'', ''V'', ''W''] (snd (getUser ''W'' world_mixed))))
       = [GetDoc ''users'' ''W'', QueryUsersIn [''V'', ''W'']]
   \<and> map fst (cache (snd (getUsers [''U'', ''V'', ''W''] world_mixed))) = [''U'', ''V'']"
proof -
  have c: "calm 100 world_mixed" by (simp add: calm_def world_mixed_def)
  have f: "\<not> fresh_at 100 (cache world_mixed) ''W''" "map_of (users world_mixed) ''W'' = None"
    by (simp_all add: fresh_at_def world_mixed_def)
  from absence_not_cached [OF c, of "''W''" "[''U'', ''V'', ''W'']", THEN conjunct1, THEN mp,
      OF conjI [OF f]]
  obtain s1 s2 where
    g: "getUser ''W'' world_mixed = (Inr None, s1)" "cache s1 = cache world_mixed"
       "getUser ''W'' s1 = (Inr None, s2)"
       "calls s2 = calls world_mixed @ [GetDoc ''users'' ''W'', GetDoc ''users'' ''W'']"
    by (elim exE conjE) (rule that)
  have e: "calls world_mixed = []" by (simp add: world_mixed_def)
  have q: "calls (snd (getUsers [''U'', ''V'', ''W''] (snd (getUser ''W'' world_mixed))))
       = [GetDoc ''users'' ''W'', QueryUsersIn [''V'', ''W'']]"
    by (simp add: getUser_def getUser_fetch_def getUserProfile_def round_trip_def world_mixed_def
        getUsers_def date_now_def CACHE_TTL_def batchGetUsers_def batches_from.simps
        query_users_in_def toUser_def alice_def bob_def setUser_def MAX_CACHE_SIZE_def)
  have k: "map fst (cache (snd (getUsers [''U'', ''V'', ''W''] world_mixed))) = [''U'', ''V'']"
    by (simp add: round_trip_def world_mixed_def
        getUsers_def date_now_def CACHE_TTL_def batchGetUsers_def batches_from.simps
        query_users_in_def toUser_def alice_def bob_def setUser_def MAX_CACHE_SIZE_def)
  from c f g e q k show ?thesis by simp
qed

theorem fresh_entry_outlives_profile_counterexample:
  "map_of (users world_gone) ''U'' = None
   \<and> store_lookup world_gone ''U'' = None
   \<and> fst (getUser ''U'' world_gone) = Inr (Some alice_old)
   \<and> calls (snd (getUser ''U'' world_gone)) = []"
  by (simp add: world_gone_def world_at_def store_lookup_def getUser_def date_now_def
      CACHE_TTL_def)

lemma check_cache_frame:
  "\<exists>k. snd (snd (check_cache us s r unc)) = s\<lparr>ticks := ticks s + k\<rparr>"
proof (induction us arbitrary: s r unc)
  case Nil
  have "snd (snd (check_cache [] s r unc)) = s\<lparr>ticks := ticks s + 0\<rparr>" by simp
  then show ?case by blast
next
  case (Cons u us)
  show ?case
  proof (cases "map_of (cache s) u")
    case None
    with Cons.IH [of s r "unc @ [u]"] show ?thesis by simp
  next
    case (Some e)
    let ?s1 = "s\<lparr>ticks := Suc (ticks s)\<rparr>"
    let ?r1 = "if clock s (ticks s) - timestamp e < CACHE_TTL then AList.update u (user e) r else r"
    let ?u1 = "if clock s (ticks s) - timestamp e < CACHE_TTL then unc else unc @ [u]"
    from Cons.IH [of ?s1 ?r1 ?u1] obtain k where
      "snd (snd (check_cache us ?s1 ?r1 ?u1)) = ?s1\<lparr>ticks := ticks ?s1 + k\<rparr>" by blast
    with Some have "snd (snd (check_cache (u # us) s r unc)) = s\<lparr>ticks := ticks s + Suc k\<rparr>"
      by (cases "clock s (ticks s) - timestamp e < CACHE_TTL") (simp_all add: date_now_def)
    then show ?thesis by blast
  qed
qed

lemma collect_docs_frame:
  "\<exists>k. snd (collect_docs ds s r) = s\<lparr>ticks := ticks s + k\<rparr>"
proof (induction ds arbitrary: s r)
  case Nil
  have "snd (collect_docs [] s r) = s\<lparr>ticks := ticks s + 0\<rparr>" by simp
  then show ?case by blast
next
  case (Cons d ds)
  obtain usr s1 where t: "toUser d s = (usr, s1)" by (cases "toUser d s")
  from toUser_frame [OF t] obtain k1 where k1: "s1 = s\<lparr>ticks := ticks s + k1\<rparr>" by blast
  from Cons.IH [of s1 "AList.update (uid usr) usr r"] obtain k2 where
    "snd (collect_docs ds s1 (AList.update (uid usr) usr r)) = s1\<lparr>ticks := ticks s1 + k2\<rparr>"
    by blast
  with t k1 have "snd (collect_docs (d # ds) s r) = s\<lparr>ticks := ticks s + (k1 + k2)\<rparr>"
    by (simp add: add.assoc)
  then show ?case by blast
qed

lemma run_batches_frame:
  "\<exists>k qs. snd (run_batches bs s r)
      = s\<lparr>ticks := ticks s + k, calls := calls s @ map QueryUsersIn qs\<rparr>"
proof (induction bs arbitrary: s r)
  case Nil
  have "snd (run_batches [] s r) = s\<lparr>ticks := ticks s + 0, calls := calls s @ map QueryUsersIn []\<rparr>"
    by simp
  then show ?case by blast
next
  case (Cons b bs)
  let ?s1 = "s\<lparr>calls := calls s @ [QueryUsersIn b]\<rparr>"
  show ?case
  proof (cases "faults s (length (calls s))")
    case True
    then have "snd (run_batches (b # bs) s r)
      = s\<lparr>ticks := ticks s + 0, calls := calls s @ map QueryUsersIn [b]\<rparr>"
      by (simp add: round_trip_def)
    then show ?thesis by blast
  next
    case False
    obtain r1 s2 where cd: "collect_docs (query_users_in b ?s1) ?s1 r = (r1, s2)"
      by (cases "collect_docs (query_users_in b ?s1) ?s1 r")
    from collect_docs_frame [of "query_users_in b ?s1" ?s1 r] cd obtain k1 where
      s2: "s2 = ?s1\<lparr>ticks := ticks ?s1 + k1\<rparr>" by auto
    from Cons.IH [of s2 r1] obtain k2 qs where
      ih: "snd (run_batches bs s2 r1) = s2\<lparr>ticks := ticks s2 + k2, calls := calls s2 @ map QueryUsersIn qs\<rparr>"
      by blast
    have "snd (run_batches (b # bs) s r)
      = s\<lparr>ticks := ticks s + (k1 + k2), calls := calls s @ map QueryUsersIn (b # qs)\<rparr>"
      using False cd ih s2 by (simp add: round_trip_def add.assoc)
    then show ?thesis by blast
  qed
qed

lemma getUsers_frame:
  "users (snd (getUsers ids s)) = users s \<and> posts (snd (getUsers ids s)) = posts s
   \<and> (\<exists>qs. calls (snd (getUsers ids s)) = calls s @ map QueryUsersIn qs)"
proof -
  obtain r unc s1 where cc: "check_cache ids s [] [] = (r, unc, s1)"
    by (cases "check_cache ids s [] []") auto
  from check_cache_frame [of ids s "[]" "[]"] cc obtain k1 where
    s1: "s1 = s\<lparr>ticks := ticks s + k1\<rparr>" by auto
  show ?thesis
  proof (cases "unc = []")
    case True
    with cc s1 have "snd (getUsers ids s) = s\<lparr>ticks := ticks s + k1\<rparr>"
      by (simp add: getUsers_def)
    then have "users (snd (getUsers ids s)) = users s \<and> posts (snd (getUsers ids s)) = posts s
       \<and> calls (snd (getUsers ids s)) = calls s @ map QueryUsersIn []" by simp
    then show ?thesis by blast
  next
    case False
    show ?thesis
    proof (cases "db_ok s")
      case no: False
      with cc s1 False have "snd (getUsers ids s) = s\<lparr>ticks := ticks s + k1\<rparr>"
        by (simp add: getUsers_def batchGetUsers_def)
      then have "users (snd (getUsers ids s)) = users s \<and> posts (snd (getUsers ids s)) = posts s
         \<and> calls (snd (getUsers ids s)) = calls s @ map QueryUsersIn []" by simp
      then show ?thesis by blast
    next
      case True
      obtain res s2 where rb: "run_batches (batches_from 0 unc) s1 [] = (res, s2)"
        by (cases "run_batches (batches_from 0 unc) s1 []")
      from run_batches_frame [of "batches_from 0 unc" s1 "[]"] rb obtain k2 qs where
        s2: "s2 = s1\<lparr>ticks := ticks s1 + k2, calls := calls s1 @ map QueryUsersIn qs\<rparr>" by auto
      have "snd (getUsers ids s) = s2 \<or> (\<exists>fetched. snd (getUsers ids s) = setUsers fetched s2)"
        using cc s1 False True rb
        by (cases res) (auto simp: getUsers_def batchGetUsers_def fill_cache_run)
      then have "users (snd (getUsers ids s)) = users s \<and> posts (snd (getUsers ids s)) = posts s
         \<and> calls (snd (getUsers ids s)) = calls s @ map QueryUsersIn qs"
        using s1 s2 setUsers_frame by auto
      then show ?thesis by blast
    qed
  qed
qed

lemma set_set_add [simp]: "set (set_add x xs) = insert x (set xs)"
  by (auto simp: set_add_def)

lemma set_fold_set_add:
  "set (fold (\<lambda>c. set_add (f c)) cs acc) = set acc \<union> f ` set cs"
  by (induction cs arbitrary: acc) auto

lemma set_post_author_ids:
  "set (post_author_ids x acc)
     = set acc \<union> insert (post_authorId x) (comment_authorId ` set (comments_of x))"
  by (auto simp: post_author_ids_def comments_of_def set_fold_set_add split: option.splits)

lemma set_fold_post_author_ids:
  "set (fold post_author_ids xs acc)
     = set acc \<union> post_authorId ` set xs \<union> comment_authorId ` (\<Union>x \<in> set xs. set (comments_of x))"
  by (induction xs arbitrary: acc) (auto simp: set_post_author_ids)

lemma set_author_ids:
  "set (author_ids xs)
     = post_authorId ` set xs \<union> comment_authorId ` (\<Union>x \<in> set xs. set (comments_of x))"
  by (simp add: author_ids_def set_fold_post_author_ids)

lemma enrich_comment_props:
  "(enrich_comment us c)\<lparr>comment_authorName := comment_authorName c,
        comment_authorPhotoURL := comment_authorPhotoURL c\<rparr> = c
   \<and> comment_authorName (enrich_comment us c)
       = (case map_of us (comment_authorId c) of None \<Rightarrow> comment_authorName c
          | Some a \<Rightarrow> displayName a)
   \<and> comment_authorPhotoURL (enrich_comment us c)
       = (case map_of us (comment_authorId c) of None \<Rightarrow> comment_authorPhotoURL c
          | Some a \<Rightarrow> photoURL a)"
  by (simp add: enrich_comment_def split: option.splits)

lemma enrich_post_props:
  "(enrich_post us x)\<lparr>post_authorName := post_authorName x,
        post_authorPhotoURL := post_authorPhotoURL x, post_comments := post_comments x\<rparr> = x
   \<and> post_authorName (enrich_post us x)
       = (case map_of us (post_authorId x) of None \<Rightarrow> post_authorName x
          | Some a \<Rightarrow> displayName a)
   \<and> post_authorPhotoURL (enrich_post us x)
       = (case map_of us (post_authorId x) of None \<Rightarrow> post_authorPhotoURL x
          | Some a \<Rightarrow> photoURL a)
   \<and> post_comments (enrich_post us x) = map_option (map (enrich_comment us)) (post_comments x)"
  by (simp add: enrich_post_def split: option.splits)

lemma list_all2_map_self:
  "(\<And>x. x \<in> set xs \<Longrightarrow> P x (f x)) \<Longrightarrow> list_all2 P xs (map f xs)"
  by (induction xs) auto

subsection \<open>Claim C8: enrichment changes author fields only\<close>

text \<open>
  C8. \<^verbatim>\<open>enrichPostsWithUserData\<close> writes nothing: the collections \<open>users\<close> and \<open>posts\<close>
  of the store are as before, and the round trips it adds to the log are queries (this
  holds also when the lookup fails). The ids it resolves are the author ids of the posts
  and of their comments. When \<^verbatim>\<open>getUsers\<close> returns the mapping \<open>us\<close>, the result has
  one post per input post, in order; each differs from its input at most in
  \<open>authorName\<close>, \<open>authorPhotoURL\<close> and the comments; the two author fields are those of
  the profile \<open>us\<close> has for the post's author id, and the input's when it has none; the
  comments are present exactly when the input's are, as many and in order, and each
  differs from its input at most in the two author fields, set by the same rule from the
  comment's author id. In a quiet run \<^verbatim>\<open>getUsers\<close> does return a mapping.
\<close>

theorem enrich_posts_frame:
  "users (snd (enrichPostsWithUserData xs s)) = users s
   \<and> posts (snd (enrichPostsWithUserData xs s)) = posts s
   \<and> (\<exists>qs. calls (snd (enrichPostsWithUserData xs s)) = calls s @ map QueryUsersIn qs)
   \<and> set (author_ids xs)
       = post_authorId ` set xs \<union> comment_authorId ` (\<Union>x \<in> set xs. set (comments_of x))
   \<and> (\<forall>us s'. getUsers (author_ids xs) s = (Inr us, s') \<longrightarrow>
        (\<exists>ys. enrichPostsWithUserData xs s = (Inr ys, s')
           \<and> list_all2 (\<lambda>x y.
                y\<lparr>post_authorName := post_authorName x,
                   post_authorPhotoURL := post_authorPhotoURL x,
                   post_comments := post_comments x\<rparr> = x
                \<and> post_authorName y
                    = (case map_of us (post_authorId x) of None \<Rightarrow> post_authorName x
                       | Some a \<Rightarrow> displayName a)
                \<and> post_authorPhotoURL y
                    = (case map_of us (post_authorId x) of None \<Rightarrow> post_authorPhotoURL x
                       | Some a \<Rightarrow> photoURL a)
                \<and> rel_option (list_all2 (\<lambda>c c'.
                       c'\<lparr>comment_authorName := comment_authorName c,
                          comment_authorPhotoURL := comment_authorPhotoURL c\<rparr> = c
                       \<and> comment_authorName c'
                           = (case map_of us (comment_authorId c) of None \<Rightarrow> comment_authorName c
                              | Some a \<Rightarrow> displayName a)
                       \<and> comment_authorPhotoURL c'
                           = (case map_of us (comment_authorId c) of None \<Rightarrow> comment_authorPhotoURL c
                              | Some a \<Rightarrow> photoURL a)))
                     (post_comments x) (post_comments y))
               xs ys))
   \<and> (calm t s \<longrightarrow> (\<exists>us s'. getUsers (author_ids xs) s = (Inr us, s')))"
proof (intro conjI allI impI)
  have e: "snd (enrichPostsWithUserData xs s) = snd (getUsers (author_ids xs) s)"
    by (cases "getUsers (author_ids xs) s" rule: prod.exhaust [case_names Pair])
       (auto simp: enrichPostsWithUserData_def split: sum.splits)
  note f = getUsers_frame [of "author_ids xs" s]
  from f show "users (snd (enrichPostsWithUserData xs s)) = users s" unfolding e by simp
  from f show "posts (snd (enrichPostsWithUserData xs s)) = posts s" unfolding e by simp
  from f show "\<exists>qs. calls (snd (enrichPostsWithUserData xs s)) = calls s @ map QueryUsersIn qs"
    unfolding e by simp
  show "set (author_ids xs)
       = post_authorId ` set xs \<union> comment_authorId ` (\<Union>x \<in> set xs. set (comments_of x))"
    by (rule set_author_ids)
next
  fix us s' assume g: "getUsers (author_ids xs) s = (Inr us, s')"
  let ?C = "\<lambda>c c'.
                       c'\<lparr>comment_authorName := comment_authorName c,
                          comment_authorPhotoURL := comment_authorPhotoURL c\<rparr> = c
                       \<and> comment_authorName c'
                           = (case map_of us (comment_authorId c) of None \<Rightarrow> comment_authorName c
                              | Some a \<Rightarrow> displayName a)
                       \<and> comment_authorPhotoURL c'
                           = (case map_of us (comment_authorId c) of None \<Rightarrow> comment_authorPhotoURL c
                              | Some a \<Rightarrow> photoURL a)"
  let ?P = "\<lambda>x y.
                y\<lparr>post_authorName := post_authorName x,
                   post_authorPhotoURL := post_authorPhotoURL x,
                   post_comments := post_comments x\<rparr> = x
                \<and> post_authorName y
                    = (case map_of us (post_authorId x) of None \<Rightarrow> post_authorName x
                       | Some a \<Rightarrow> displayName a)
                \<and> post_authorPhotoURL y
                    = (case map_of us (post_authorId x) of None \<Rightarrow> post_authorPhotoURL x
                       | Some a \<Rightarrow> photoURL a)
                \<and> rel_option (list_all2 ?C) (post_comments x) (post_comments y)"
  have cs: "list_all2 ?C cs (map (enrich_comment us) cs)" for cs
    by (rule list_all2_map_self) (rule enrich_comment_props)
  have ro: "rel_option (list_all2 ?C) (post_comments x) (post_comments (enrich_post us x))" for x
    using cs by (cases "post_comments x") (simp_all add: enrich_post_props)
  have "?P x (enrich_post us x)" for x
    using enrich_post_props [where us = us and x = x] ro [of x] by blast
  then have "list_all2 ?P xs (map (enrich_post us) xs)"
    by (intro list_all2_map_self)
  moreover have "enrichPostsWithUserData xs s = (Inr (map (enrich_post us) xs), s')"
    using g by (simp add: enrichPostsWithUserData_def)
  ultimately show "\<exists>ys. enrichPostsWithUserData xs s = (Inr ys, s') \<and> list_all2 ?P xs ys"
    by blast
next
  assume "calm t s"
  then show "\<exists>us s'. getUsers (author_ids xs) s = (Inr us, s')"
    by (rule getUsers_calm_total)
qed

theorem enrich_posts_frame_witness:
  "calm 100 world_mixed
   \<and> fst (enrichPostsWithUserData [post1] world_mixed)
       = Inr [post1\<lparr>post_authorName := ''Alice'', post_authorPhotoURL := ''alice.png'',
                post_comments := Some [carol_comment,
                  bob_comment\<lparr>comment_authorName := ''Bob'', comment_authorPhotoURL := ''bob.png''\<rparr>]\<rparr>]
   \<and> users (snd (enrichPostsWithUserData [post1] world_mixed)) = users world_mixed
   \<and> posts (snd (enrichPostsWithUserData [post1] world_mixed)) = posts world_mixed
   \<and> calls (snd (enrichPostsWithUserData [post1] world_mixed)) = [QueryUsersIn [''W'', ''V'']]"
proof -
  have c: "calm 100 world_mixed" by (simp add: calm_def world_mixed_def)
  note th = enrich_posts_frame [of "[post1]" world_mixed 100]
  from th have u: "users (snd (enrichPostsWithUserData [post1] world_mixed)) = users world_mixed"
    by (rule conjunct1)
  from th have p: "posts (snd (enrichPostsWithUserData [post1] world_mixed)) = posts world_mixed"
    by (rule conjunct2 [THEN conjunct1])
  have a: "author_ids [post1] = [''U'', ''W'', ''V'']"
    by (simp add: author_ids_def post_author_ids_def set_add_def post1_def carol_comment_def
        bob_comment_def)
  have g: "getUsers [''U'', ''W'', ''V''] world_mixed
     = (Inr [(''U'', user_of_doc 0 alice), (''V'', user_of_doc 100 bob)],
        snd (getUsers [''U'', ''W'', ''V''] world_mixed))
     \<and> calls (snd (getUsers [''U'', ''W'', ''V''] world_mixed)) = [QueryUsersIn [''W'', ''V'']]"
    by (simp add: round_trip_def world_mixed_def
        getUsers_def date_now_def CACHE_TTL_def batchGetUsers_def batches_from.simps
        query_users_in_def toUser_def alice_def bob_def setUser_def MAX_CACHE_SIZE_def
        user_of_doc_def)
  have r: "enrichPostsWithUserData [post1] world_mixed
     = (Inr [post1\<lparr>post_authorName := ''Alice'', post_authorPhotoURL := ''alice.png'',
                post_comments := Some [carol_comment,
                  bob_comment\<lparr>comment_authorName := ''Bob'', comment_authorPhotoURL := ''bob.png''\<rparr>]\<rparr>],
        snd (getUsers [''U'', ''W'', ''V''] world_mixed))"
    unfolding enrichPostsWithUserData_def a
    by (subst conjunct1 [OF g])
       (simp add: enrich_post_def enrich_comment_def post1_def carol_comment_def bob_comment_def
         user_of_doc_def alice_def bob_def)
  from c u p r g show ?thesis by simp
qed

lemma repair_step_refl [simp]: "repair_step s s"
  by (simp add: repair_step_def)

lemma repair_step_trans: "repair_step s s1 \<Longrightarrow> repair_step s1 s2 \<Longrightarrow> repair_step s s2"
  by (simp add: repair_step_def)

lemma batch_commit_step: "repair_step s (snd (batch_commit b s))"
  by (simp add: batch_commit_def repair_step_def round_trip_def)

lemma repair_loop_step: "repair_step s (snd (repair_loop docs u n p b ops s))"
proof (induction docs arbitrary: b ops s)
  case Nil
  then show ?case by simp
next
  case (Cons x docs)
  let ?s1 = "s\<lparr>ticks := Suc (ticks s)\<rparr>"
  have t: "repair_step s ?s1" by (simp add: repair_step_def)
  show ?case
  proof (cases "batch_update (UpdateAuthor (post_id x) n p (clock s (ticks s))) b")
    case (Inl e)
    with t show ?thesis by (simp add: date_now_def)
  next
    case (Inr b1)
    let ?r = "case post_comments x of None \<Rightarrow> Inr b1
              | Some cs \<Rightarrow> batch_update (UpdateComments (post_id x) (map (rewrite_comment u n p) cs)) b1"
    show ?thesis
    proof (cases ?r)
      case e: (Inl e)
      with Inr t show ?thesis by (simp add: date_now_def)
    next
      case b2: (Inr b2)
      show ?thesis
      proof (cases "Suc ops \<ge> MAX_BATCH_SIZE")
        case False
        with Inr b2 have "snd (repair_loop (x # docs) u n p b ops s)
            = snd (repair_loop docs u n p b2 (Suc ops) ?s1)" by (simp add: date_now_def)
        with Cons.IH [of ?s1 b2 "Suc ops"] t show ?thesis
          by (auto intro: repair_step_trans)
      next
        case True
        obtain r s2 where bc: "batch_commit b2 ?s1 = (r, s2)" by (cases "batch_commit b2 ?s1")
        from batch_commit_step [of ?s1 b2] bc have st2: "repair_step ?s1 s2" by simp
        show ?thesis
        proof (cases r)
          case e2: (Inl e)
          with Inr b2 True bc have "snd (repair_loop (x # docs) u n p b ops s) = s2"
            by (simp add: date_now_def)
          with t st2 show ?thesis by (auto intro: repair_step_trans)
        next
          case b3: (Inr b3)
          with Inr b2 True bc have "snd (repair_loop (x # docs) u n p b ops s)
              = snd (repair_loop docs u n p b3 0 s2)"
            by (simp add: date_now_def)
          with Cons.IH [of s2 b3 0] t st2 show ?thesis
            by (auto intro: repair_step_trans)
        qed
      qed
    qed
  qed
qed

lemma repair_outcome:
  assumes "updateUserContentReferences u n p s = (r, s')"
  shows "console s' = console s \<and> detached s' = detached s \<and> users s' = users s
     \<and> db_ok s' = db_ok s \<and> clock s' = clock s \<and> faults s' = faults s
     \<and> cache s' = (case r of Inl e \<Rightarrow> cache s | Inr v \<Rightarrow> AList.delete u (cache s))"
proof (cases "db_ok s")
  case False
  with assms show ?thesis by (auto simp: updateUserContentReferences_def)
next
  case True
  let ?s1 = "s\<lparr>calls := calls s @ [QueryPostsByAuthor u]\<rparr>"
  have st1: "repair_step s ?s1" by (simp add: repair_step_def)
  show ?thesis
  proof (cases "faults s (length (calls s))")
    case f: True
    with True assms show ?thesis
      by (auto simp: updateUserContentReferences_def round_trip_def)
  next
    case nf: False
    let ?docs = "filter (\<lambda>x. post_authorId x = u) (posts ?s1)"
    obtain r2 s2 where rl: "repair_loop ?docs u n p writeBatch 0 ?s1 = (r2, s2)"
      by (cases "repair_loop ?docs u n p writeBatch 0 ?s1")
    from repair_loop_step [of ?s1 ?docs u n p writeBatch 0] rl have st2: "repair_step ?s1 s2"
      by simp
    with st1 have st: "repair_step s s2" by (rule repair_step_trans)
    show ?thesis
    proof (cases r2)
      case (Inl e)
      with True nf rl assms have "r = Inl e" "s' = s2"
        by (auto simp: updateUserContentReferences_def round_trip_def)
      with st show ?thesis by (simp add: repair_step_def)
    next
      case (Inr bo)
      obtain b ops where bo: "bo = (b, ops)" by (cases bo)
      let ?fin = "if ops > 0 then batch_commit b s2 else (Inr b, s2)"
      obtain r3 s3 where fin: "?fin = (r3, s3)" by (cases ?fin)
      have st3: "repair_step s2 s3"
        using fin batch_commit_step [of s2 b] by (cases "ops > 0") auto
      with st have st': "repair_step s s3" by (rule repair_step_trans)
      show ?thesis
      proof (cases r3)
        case e3: (Inl e)
        with True nf rl Inr bo fin assms have "r = Inl e" "s' = s3"
          by (auto simp: updateUserContentReferences_def round_trip_def)
        with st' show ?thesis by (simp add: repair_step_def)
      next
        case b3: (Inr b')
        with True nf rl Inr bo fin assms have "r = Inr ()" "s' = invalidateUser u s3"
          by (auto simp: updateUserContentReferences_def round_trip_def)
        with st' show ?thesis by (simp add: repair_step_def invalidateUser_def)
      qed
    qed
  qed
qed

lemma getUserProfile_frame:
  "\<exists>k c. snd (getUserProfile u s) = s\<lparr>ticks := ticks s + k, calls := calls s @ c\<rparr>"
proof (cases "db_ok s \<and> \<not> faults s (length (calls s))")
  case False
  then have "snd (getUserProfile u s) = s\<lparr>ticks := ticks s + 0, calls := calls s @ []\<rparr>
     \<or> snd (getUserProfile u s) = s\<lparr>ticks := ticks s + 0, calls := calls s @ [GetDoc ''users'' u]\<rparr>"
    by (auto simp: getUserProfile_def round_trip_def)
  then show ?thesis by blast
next
  case True
  show ?thesis
  proof (cases "map_of (users s) u")
    case None
    with True have "snd (getUserProfile u s) = s\<lparr>ticks := ticks s + 0, calls := calls s @ [GetDoc ''users'' u]\<rparr>"
      by (simp add: getUserProfile_def round_trip_def)
    then show ?thesis by blast
  next
    case (Some d)
    with True getUserProfile_some [of s u d] obtain usr k where
      "getUserProfile u s = (Inr (Some usr), s\<lparr>calls := calls s @ [GetDoc ''users'' u], ticks := ticks s + k\<rparr>)"
      by blast
    then have "snd (getUserProfile u s) = s\<lparr>ticks := ticks s + k, calls := calls s @ [GetDoc ''users'' u]\<rparr>"
      by simp
    then show ?thesis by blast
  qed
qed

text \<open>What a profile update that resolves has done.\<close>

lemma updateUserProfile_resolved:
  assumes "updateUserProfile u data s = (Inr (), s1)"
  shows "db_ok s \<and> \<not> faults s (length (calls s)) \<and> db_ok s1
     \<and> (\<exists>d. map_of (users s) u = Some d
            \<and> users s1 = AList.update u (apply_patch data (clock s (ticks s)) d) (users s)
            \<and> detached s1 =
                 (if truthy (patch_displayName data) \<or> truthy (patch_photoURL data)
                  then detached s @
                    [Repair u (doc_displayName (apply_patch data (clock s (ticks s)) d))
                       (doc_photoURL (apply_patch data (clock s (ticks s)) d))]
                  else detached s))
     \<and> cache s1 = AList.delete u (cache s)
     \<and> faults s1 = faults s \<and> clock s1 = clock s \<and> console s1 = console s
     \<and> posts s1 = posts s"
proof -
  from assms have db: "db_ok s" by (auto simp: updateUserProfile_def split: if_splits)
  let ?s1 = "s\<lparr>ticks := Suc (ticks s)\<rparr>"
  let ?s2 = "?s1\<lparr>calls := calls s @ [UpdateDoc ''users'' u]\<rparr>"
  from assms db have nf: "\<not> faults s (length (calls s))"
    by (auto simp: updateUserProfile_def date_now_def round_trip_def split: if_splits)
  from assms db nf obtain d where d: "map_of (users s) u = Some d"
    by (cases "map_of (users s) u")
       (auto simp: updateUserProfile_def date_now_def round_trip_def split: if_splits)
  let ?d' = "apply_patch data (clock s (ticks s)) d"
  let ?s3 = "?s2\<lparr>users := AList.update u ?d' (users s)\<rparr>"
  show ?thesis
  proof (cases "truthy (patch_displayName data) \<or> truthy (patch_photoURL data)")
    case False
    with assms db nf d have "s1 = invalidateUser u ?s3"
      by (simp add: updateUserProfile_def date_now_def round_trip_def)
    with db nf d False show ?thesis by (simp add: invalidateUser_def)
  next
    case True
    have nf2: "\<not> faults ?s3 (length (calls ?s3))"
    proof
      assume "faults ?s3 (length (calls ?s3))"
      then have "getUserProfile u ?s3
          = (Inl StoreFailure, ?s3\<lparr>calls := calls ?s3 @ [GetDoc ''users'' u]\<rparr>)"
        using db by (simp add: getUserProfile_def round_trip_def)
      with assms db nf d True show False
        by (simp add: updateUserProfile_def date_now_def round_trip_def)
    qed
    have db3: "db_ok ?s3" using db by simp
    have m3: "map_of (users ?s3) u = Some ?d'" by (simp add: update_conv')
    from getUserProfile_some [OF db3 nf2 m3] obtain usr k where
      g: "getUserProfile u ?s3
           = (Inr (Some usr), ?s3\<lparr>calls := calls ?s3 @ [GetDoc ''users'' u], ticks := ticks ?s3 + k\<rparr>)"
      and tu: "toUser ?d' (?s3\<lparr>calls := calls ?s3 @ [GetDoc ''users'' u]\<rparr>)
           = (usr, ?s3\<lparr>calls := calls ?s3 @ [GetDoc ''users'' u], ticks := ticks ?s3 + k\<rparr>)"
      by blast
    let ?s4 = "?s3\<lparr>calls := calls ?s3 @ [GetDoc ''users'' u], ticks := ticks ?s3 + k\<rparr>"
    from assms db nf d True g have
      "s1 = invalidateUser u (?s4\<lparr>detached := detached ?s4 @ [Repair u (displayName usr) (photoURL usr)]\<rparr>)"
      by (simp add: updateUserProfile_def date_now_def round_trip_def)
    with db nf d True toUser_fields [OF tu] show ?thesis by (simp add: invalidateUser_def)
  qed
qed

lemma updateUserProfile_resolves:
  assumes "db_ok s" "\<not> faults s (length (calls s))" "\<not> faults s (Suc (length (calls s)))"
    "map_of (users s) u = Some d"
  shows "\<exists>s1. updateUserProfile u data s = (Inr (), s1)"
proof -
  let ?d' = "apply_patch data (clock s (ticks s)) d"
  let ?s3 = "s\<lparr>ticks := Suc (ticks s), calls := calls s @ [UpdateDoc ''users'' u],
               users := AList.update u ?d' (users s)\<rparr>"
  have "db_ok ?s3" "\<not> faults ?s3 (length (calls ?s3))" "map_of (users ?s3) u = Some ?d'"
    using assms by (simp_all add: update_conv')
  from getUserProfile_some [OF this] obtain usr s4 where
    g: "getUserProfile u ?s3 = (Inr (Some usr), s4)" by blast
  show ?thesis
    using assms g
    by (cases "truthy (patch_displayName data) \<or> truthy (patch_photoURL data)")
       (simp_all add: updateUserProfile_def date_now_def round_trip_def)
qed

lemma run_detached_failure:
  assumes "detached s1 = [Repair u n p]"
    "updateUserContentReferences u n p (s1\<lparr>detached := []\<rparr>) = (Inl e, s2)"
  shows "run_detached s1 = s2\<lparr>console := console s2 @ [e]\<rparr>"
    and "console (run_detached s1) = console s1 @ [e]"
    and "detached (run_detached s1) = []"
    and "run_detached (run_detached s1) = run_detached s1"
    and "cache (run_detached s1) = cache s1"
    and "users (run_detached s1) = users s1"
proof -
  show r: "run_detached s1 = s2\<lparr>console := console s2 @ [e]\<rparr>"
    using assms by (simp add: run_detached_def)
  from repair_outcome [OF assms(2)] have
    f: "console s2 = console s1" "detached s2 = []" "users s2 = users s1" "cache s2 = cache s1"
    by simp_all
  show "console (run_detached s1) = console s1 @ [e]" using r f by simp
  show d: "detached (run_detached s1) = []" using r f by simp
  show "run_detached (run_detached s1) = run_detached s1"
    using d by (simp add: run_detached_def)
  show "cache (run_detached s1) = cache s1" using r f by simp
  show "users (run_detached s1) = users s1" using r f by simp
qed

subsection \<open>Claim C9: a failing repair does not reach the caller\<close>

text \<open>
  C9. Let a profile update change the display name or the avatar, with the store
  initialised, the document present and the update's own two round trips (the write
  and the re-read) not rejected; nothing is assumed of any later round trip. Then
  \<^verbatim>\<open>updateUserProfile\<close> resolves, the cache has no entry for the user, and the repair
  is left as the one detached promise. If the repair then rejects with an error, this
  error is appended to the console and that is all: the promise is gone and nothing
  starts the repair again (settling once more changes nothing), and the cache entry
  stays invalidated.
\<close>

theorem repair_failure_swallowed:
  assumes "db_ok s" "\<not> faults s (length (calls s))" "\<not> faults s (Suc (length (calls s)))"
    "map_of (users s) u = Some d"
    "truthy (patch_displayName data) \<or> truthy (patch_photoURL data)" "detached s = []"
  shows "\<exists>s1 n p. updateUserProfile u data s = (Inr (), s1)
     \<and> map_of (cache s1) u = None
     \<and> detached s1 = [Repair u n p]
     \<and> (\<forall>e s2. updateUserContentReferences u n p (s1\<lparr>detached := []\<rparr>) = (Inl e, s2) \<longrightarrow>
           run_detached s1 = s2\<lparr>console := console s2 @ [e]\<rparr>
           \<and> console (run_detached s1) = console s @ [e]
           \<and> detached (run_detached s1) = []
           \<and> run_detached (run_detached s1) = run_detached s1
           \<and> map_of (cache (run_detached s1)) u = None
           \<and> users (run_detached s1) = users s1)"
proof -
  from updateUserProfile_resolves [OF assms(1-4), of data] obtain s1 where
    up: "updateUserProfile u data s = (Inr (), s1)" by blast
  from updateUserProfile_resolved [OF up] assms(4,5,6) obtain n p where
    d1: "detached s1 = [Repair u n p]" and c1: "cache s1 = AList.delete u (cache s)"
    and k1: "console s1 = console s"
    by auto
  have m1: "map_of (cache s1) u = None" unfolding c1 by (simp add: delete_conv')
  have "\<forall>e s2. updateUserContentReferences u n p (s1\<lparr>detached := []\<rparr>) = (Inl e, s2) \<longrightarrow>
           run_detached s1 = s2\<lparr>console := console s2 @ [e]\<rparr>
           \<and> console (run_detached s1) = console s @ [e]
           \<and> detached (run_detached s1) = []
           \<and> run_detached (run_detached s1) = run_detached s1
           \<and> map_of (cache (run_detached s1)) u = None
           \<and> users (run_detached s1) = users s1"
  proof (intro allI impI)
    fix e s2 assume "updateUserContentReferences u n p (s1\<lparr>detached := []\<rparr>) = (Inl e, s2)"
    note rd = run_detached_failure [OF d1 this]
    have "console (run_detached s1) = console s @ [e]" using rd(2) k1 by simp
    moreover have "map_of (cache (run_detached s1)) u = None" using rd(5) m1 by simp
    ultimately
    show "run_detached s1 = s2\<lparr>console := console s2 @ [e]\<rparr>
           \<and> console (run_detached s1) = console s @ [e]
           \<and> detached (run_detached s1) = []
           \<and> run_detached (run_detached s1) = run_detached s1
           \<and> map_of (cache (run_detached s1)) u = None
           \<and> users (run_detached s1) = users s1"
      using rd(1,3,4,6) by (intro conjI)
  qed
  with up m1 d1 show ?thesis by blast
qed

lemmas eval_defs =
  updateUserProfile_def run_detached_def updateUserContentReferences_def getUserProfile_def
  getUser_def getUser_fetch_def setUser_def invalidateUser_def date_now_def round_trip_def
  toUser_def apply_patch_def truthy_def batch_update_def batch_commit_def writeBatch_def
  rewrite_comment_def MAX_BATCH_SIZE_def MAX_CACHE_SIZE_def CACHE_TTL_def

theorem repair_failure_swallowed_witness:
  "db_ok world_failing \<and> faults world_failing 3
   \<and> fst (updateUserProfile ''U'' new_name world_failing) = Inr ()
   \<and> detached (snd (updateUserProfile ''U'' new_name world_failing))
       = [Repair ''U'' ''USER2'' ''new.png'']
   \<and> console (run_detached (snd (updateUserProfile ''U'' new_name world_failing)))
       = [StoreFailure]
   \<and> detached (run_detached (snd (updateUserProfile ''U'' new_name world_failing))) = []
   \<and> posts (run_detached (snd (updateUserProfile ''U'' new_name world_failing))) = [post1]
   \<and> map_of (cache (run_detached (snd (updateUserProfile ''U'' new_name world_failing)))) ''U''
       = None"
  using repair_failure_swallowed [of world_failing "''U''" alice new_name]
  by (simp add: eval_defs world_failing_def world_at_def new_name_def alice_def post1_def
      carol_comment_def bob_comment_def)

subsection \<open>Claim C3: when the cache entry is invalidated\<close>

text \<open>
  C3, as amended. When \<^verbatim>\<open>updateUserProfile\<close> resolves, the cache has no entry for
  the user, while the repair it started (when the patch has a display name or an avatar)
  is still among the detached promises: the invalidation does not wait for the repair. A
  \<^verbatim>\<open>getUser\<close> made then, its round trip not rejected, looks the profile up in the
  store and returns it with the display name and the avatar of the patch. The repair,
  when it completes without an error, invalidates the entry once more; so the claim's
  "not on completion of the repair" does not hold of the code (see the counterexample
  below, where a read between the update and the end of the repair had filled the cache
  again).
\<close>

theorem invalidation_precedes_repair:
  "(updateUserProfile u data s = (Inr (), s1) \<longrightarrow>
      map_of (cache s1) u = None
      \<and> (truthy (patch_displayName data) \<or> truthy (patch_photoURL data) \<longrightarrow>
           (\<exists>n p. detached s1 = detached s @ [Repair u n p]))
      \<and> (\<not> faults s1 (length (calls s1)) \<longrightarrow>
           (\<exists>usr. fst (getUser u s1) = Inr (Some usr)
              \<and> calls (snd (getUser u s1)) = calls s1 @ [GetDoc ''users'' u]
              \<and> (\<forall>v. patch_displayName data = Some v \<longrightarrow> displayName usr = v)
              \<and> (\<forall>v. patch_photoURL data = Some v \<longrightarrow> photoURL usr = v))))
   \<and> (updateUserContentReferences u n p s = (Inr (), s2) \<longrightarrow> map_of (cache s2) u = None)"
proof (intro conjI impI)
  assume up: "updateUserProfile u data s = (Inr (), s1)"
  from updateUserProfile_resolved [OF up] obtain d where
    db1: "db_ok s1" and d: "map_of (users s) u = Some d"
    and u1: "users s1 = AList.update u (apply_patch data (clock s (ticks s)) d) (users s)"
    and de: "detached s1 =
                 (if truthy (patch_displayName data) \<or> truthy (patch_photoURL data)
                  then detached s @
                    [Repair u (doc_displayName (apply_patch data (clock s (ticks s)) d))
                       (doc_photoURL (apply_patch data (clock s (ticks s)) d))]
                  else detached s)"
    and c1: "cache s1 = AList.delete u (cache s)"
    by blast
  show m: "map_of (cache s1) u = None" unfolding c1 by (simp add: delete_conv')
  {
    assume "truthy (patch_displayName data) \<or> truthy (patch_photoURL data)"
    with de show "\<exists>n p. detached s1 = detached s @ [Repair u n p]" by auto
  }
  {
    assume nf: "\<not> faults s1 (length (calls s1))"
    let ?d' = "apply_patch data (clock s (ticks s)) d"
    have m1: "map_of (users s1) u = Some ?d'" unfolding u1 by (simp add: update_conv')
    from getUser_fetch_some [OF db1 nf m1] obtain usr s' where
      f: "getUser_fetch u s1 = (Inr (Some usr), setUser u usr s')"
         "calls (setUser u usr s') = calls s1 @ [GetDoc ''users'' u]"
         "displayName usr = doc_displayName ?d'" "photoURL usr = doc_photoURL ?d'"
      by blast
    have g: "getUser u s1 = getUser_fetch u s1" using m by (simp add: getUser_def)
    have "fst (getUser u s1) = Inr (Some usr)
              \<and> calls (snd (getUser u s1)) = calls s1 @ [GetDoc ''users'' u]
              \<and> (\<forall>v. patch_displayName data = Some v \<longrightarrow> displayName usr = v)
              \<and> (\<forall>v. patch_photoURL data = Some v \<longrightarrow> photoURL usr = v)"
      using f g by (simp add: apply_patch_def)
    then show "\<exists>usr. fst (getUser u s1) = Inr (Some usr)
              \<and> calls (snd (getUser u s1)) = calls s1 @ [GetDoc ''users'' u]
              \<and> (\<forall>v. patch_displayName data = Some v \<longrightarrow> displayName usr = v)
              \<and> (\<forall>v. patch_photoURL data = Some v \<longrightarrow> photoURL usr = v)" by blast
  }
next
  assume "updateUserContentReferences u n p s = (Inr (), s2)"
  from repair_outcome [OF this] show "map_of (cache s2) u = None"
    by (simp add: delete_conv')
qed

theorem invalidation_precedes_repair_witness:
  "fst (updateUserProfile ''U'' new_name (world_at 0)) = Inr ()
   \<and> map_of (cache (world_at 0)) ''U'' = Some \<lparr>user = alice_old, timestamp = 0\<rparr>
   \<and> map_of (cache (snd (updateUserProfile ''U'' new_name (world_at 0)))) ''U'' = None
   \<and> detached (snd (updateUserProfile ''U'' new_name (world_at 0)))
       = [Repair ''U'' ''USER2'' ''new.png'']
   \<and> map_option displayName
        (projr (fst (getUser ''U'' (snd (updateUserProfile ''U'' new_name (world_at 0))))))
       = Some ''USER2''
   \<and> fst (updateUserContentReferences ''U'' ''USER2'' ''new.png'' (world_at 0)) = Inr ()
   \<and> map_of (cache (snd (updateUserContentReferences ''U'' ''USER2'' ''new.png'' (world_at 0)))) ''U''
       = None"
  using invalidation_precedes_repair [of "''U''" new_name "world_at 0"
      "snd (updateUserProfile ''U'' new_name (world_at 0))" "''USER2''" "''new.png''"
      "snd (updateUserContentReferences ''U'' ''USER2'' ''new.png'' (world_at 0))"]
  by (simp add: eval_defs world_at_def new_name_def alice_def)

theorem repair_completion_invalidates_counterexample:
  "fst (updateUserProfile ''U'' new_name (world_at 0)) = Inr ()
   \<and> map_option (displayName \<circ> user)
        (map_of (cache (snd (getUser ''U'' (snd (updateUserProfile ''U'' new_name (world_at 0))))))
           ''U'') = Some ''USER2''
   \<and> map_of (cache (run_detached
        (snd (getUser ''U'' (snd (updateUserProfile ''U'' new_name (world_at 0))))))) ''U'' = None
   \<and> console (run_detached
        (snd (getUser ''U'' (snd (updateUserProfile ''U'' new_name (world_at 0)))))) = []"
  by (simp add: eval_defs world_at_def new_name_def alice_def)

subsection \<open>Claim C1: the repair and comments on other authors' posts\<close>

text \<open>
  C1 does not hold of the code. The repair queries the posts whose \<^verbatim>\<open>authorId\<close> is
  the user and rewrites comments only inside those; a comment of the user on a post of
  another author is never reached. Here the profile update of \<open>''U''\<close> resolves and the
  repair completes without an error: \<open>p1\<close> and \<open>p2\<close> carry the new name and avatar and
  the comment by \<open>''V''\<close> on \<open>p1\<close> is untouched, but the comment of \<open>''U''\<close> inside \<open>p3\<close>
  still carries the old name and avatar.
\<close>

theorem repair_misses_comment_on_foreign_post:
  "fst (updateUserProfile ''U'' new_name world_three_posts) = Inr ()
   \<and> console (run_detached (snd (updateUserProfile ''U'' new_name world_three_posts))) = []
   \<and> detached (run_detached (snd (updateUserProfile ''U'' new_name world_three_posts))) = []
   \<and> map (\<lambda>x. (post_id x, post_authorName x, post_authorPhotoURL x))
        (posts (run_detached (snd (updateUserProfile ''U'' new_name world_three_posts))))
       = [(''p1'', ''USER2'', ''new.png''), (''p2'', ''USER2'', ''new.png''),
          (''p3'', ''Bob'', ''old.png'')]
   \<and> map (map (\<lambda>c. (comment_id c, comment_authorId c, comment_authorName c,
                      comment_authorPhotoURL c)) \<circ> comments_of)
        (posts (run_detached (snd (updateUserProfile ''U'' new_name world_three_posts))))
       = [[(''c2'', ''V'', ''Bob'', ''old.png'')], [],
          [(''c1'', ''U'', ''Alice'', ''old.png'')]]"
  by (simp add: eval_defs world_three_posts_def world_at_def new_name_def alice_def bob_def
      post_by_def comment_by_def comments_of_def)

lemma repair_loop_no_flush:
  assumes "\<not> committed b" "ops + length docs < MAX_BATCH_SIZE"
    "list_all (\<lambda>x. post_comments x \<noteq> None) docs"
  shows "\<exists>b' s'. repair_loop docs u n p b ops s = (Inr (b', ops + length docs), s')
     \<and> \<not> committed b' \<and> length (staged b') = length (staged b) + 2 * length docs
     \<and> calls s' = calls s \<and> faults s' = faults s \<and> posts s' = posts s"
  using assms
proof (induction docs arbitrary: b ops s)
  case Nil
  then show ?case by simp
next
  case (Cons x docs)
  from Cons.prems(3) obtain cs where cs: "post_comments x = Some cs" by auto
  let ?s1 = "s\<lparr>ticks := Suc (ticks s)\<rparr>"
  let ?b2 = "b\<lparr>staged := staged b @ [UpdateAuthor (post_id x) n p (clock s (ticks s)),
                 UpdateComments (post_id x) (map (rewrite_comment u n p) cs)]\<rparr>"
  have st: "repair_loop (x # docs) u n p b ops s = repair_loop docs u n p ?b2 (Suc ops) ?s1"
    using Cons.prems(1,2) cs by (simp add: date_now_def batch_update_def)
  have p: "\<not> committed ?b2" "Suc ops + length docs < MAX_BATCH_SIZE"
    "list_all (\<lambda>x. post_comments x \<noteq> None) docs"
    using Cons.prems by simp_all
  from Cons.IH [OF p, of ?s1] obtain b' s' where
    ih: "repair_loop docs u n p ?b2 (Suc ops) ?s1 = (Inr (b', Suc ops + length docs), s')"
      "\<not> committed b'" "length (staged b') = length (staged ?b2) + 2 * length docs"
      "calls s' = calls ?s1" "faults s' = faults ?s1" "posts s' = posts ?s1"
    by blast
  have "repair_loop (x # docs) u n p b ops s = (Inr (b', ops + length (x # docs)), s')
     \<and> \<not> committed b' \<and> length (staged b') = length (staged b) + 2 * length (x # docs)
     \<and> calls s' = calls s \<and> faults s' = faults s \<and> posts s' = posts s"
    using st ih by simp
  then show ?case by blast
qed

lemma repair_one_batch:
  assumes "db_ok s" "\<not> faults s (length (calls s))"
    "docs = filter (\<lambda>x. post_authorId x = u) (posts s)"
    "0 < length docs" "length docs < MAX_BATCH_SIZE"
    "list_all (\<lambda>x. post_comments x \<noteq> None) docs"
  shows "\<exists>ws. calls (snd (updateUserContentReferences u n p s))
            = calls s @ [QueryPostsByAuthor u, Commit ws]
          \<and> length ws = 2 * length docs"
proof -
  let ?s1 = "s\<lparr>calls := calls s @ [QueryPostsByAuthor u]\<rparr>"
  have nc: "\<not> committed writeBatch" by (simp add: writeBatch_def)
  from assms(5) have sm: "0 + length docs < MAX_BATCH_SIZE" by simp
  from repair_loop_no_flush [OF nc sm assms(6), of u n p ?s1] obtain b' s' where
    rl: "repair_loop docs u n p writeBatch 0 ?s1 = (Inr (b', 0 + length docs), s')"
      "\<not> committed b'" "length (staged b') = length (staged writeBatch) + 2 * length docs"
      "calls s' = calls ?s1"
    by blast
  obtain r s3 where bc: "batch_commit b' s' = (r, s3)" by (cases "batch_commit b' s'")
  have c3: "calls s3 = calls s' @ [Commit (staged b')]"
    using bc rl(2) by (auto simp: batch_commit_def round_trip_def split: if_splits)
  have "calls (snd (updateUserContentReferences u n p s)) = calls s3"
    using assms(1,2,4) assms(3) [symmetric] rl(1) bc
    by (cases r) (simp_all add: updateUserContentReferences_def round_trip_def invalidateUser_def)
  with c3 rl(3,4) have "calls (snd (updateUserContentReferences u n p s))
            = calls s @ [QueryPostsByAuthor u, Commit (staged b')]
          \<and> length (staged b') = 2 * length docs"
    by (simp add: writeBatch_def)
  then show ?thesis by blast
qed

subsection \<open>Claim C2: the size of a committed batch\<close>

text \<open>
  C2 does not hold of the code. Each post stages an update of its author fields and,
  when it has a comments array, a second update; but \<^verbatim>\<open>batchOperations\<close> is
  incremented once per post, so the flush at \<open>MAX_BATCH_SIZE\<close> counts posts, not staged
  operations. With 251 posts of the user, each with a comments array, no flush happens
  in the loop and the one batch committed after it holds 502 operations.
\<close>

theorem repair_commits_oversized_batch:
  "length (filter (\<lambda>x. post_authorId x = ''U'') (posts (world_many_posts 251))) = 251
   \<and> batch_sizes (calls (snd (updateUserContentReferences ''U'' ''USER2'' ''new.png''
        (world_many_posts 251)))) = [502]
   \<and> MAX_BATCH_SIZE = 500"
proof -
  let ?s = "world_many_posts 251"
  have f: "filter (\<lambda>x. post_authorId x = ''U'') (posts ?s) = many_posts 251"
    by (simp add: world_many_posts_def many_posts_def post_by_def filter_map comp_def)
  have l: "length (many_posts 251) = 251" by (simp add: many_posts_def)
  have a: "list_all (\<lambda>x. post_comments x \<noteq> None) (many_posts 251)"
    by (simp add: many_posts_def post_by_def list_all_iff)
  have e: "db_ok ?s" "\<not> faults ?s (length (calls ?s))" "calls ?s = []"
    by (simp_all add: world_many_posts_def world_at_def)
  from repair_one_batch [OF e(1,2) f [symmetric], of "''USER2''" "''new.png''"] l a
  obtain ws where
    "calls (snd (updateUserContentReferences ''U'' ''USER2'' ''new.png'' ?s))
       = calls ?s @ [QueryPostsByAuthor ''U'', Commit ws]" "length ws = 2 * 251"
    by (auto simp: MAX_BATCH_SIZE_def)
  then have "batch_sizes (calls (snd (updateUserContentReferences ''U'' ''USER2'' ''new.png'' ?s)))
      = [502]" using e(3) by simp
  with f l show ?thesis by (simp add: MAX_BATCH_SIZE_def)
qed

lemma repair_loop_staged:
  assumes "\<not> committed b" "ops + length docs < MAX_BATCH_SIZE" "\<forall>k. clock s k = t"
  shows "\<exists>k. repair_loop docs u n p b ops s
     = (Inr (b\<lparr>staged := staged b @ concat (map (ops_for u n p t) docs)\<rparr>, ops + length docs),
        s\<lparr>ticks := ticks s + k\<rparr>)"
  using assms
proof (induction docs arbitrary: b ops s)
  case Nil
  have "repair_loop [] u n p b ops s
     = (Inr (b\<lparr>staged := staged b @ concat (map (ops_for u n p t) [])\<rparr>, ops + length ([] :: Post list)),
        s\<lparr>ticks := ticks s + 0\<rparr>)" by simp
  then show ?case by blast
next
  case (Cons x docs)
  let ?s1 = "s\<lparr>ticks := Suc (ticks s)\<rparr>"
  let ?b2 = "b\<lparr>staged := staged b @ ops_for u n p t x\<rparr>"
  have st: "repair_loop (x # docs) u n p b ops s = repair_loop docs u n p ?b2 (Suc ops) ?s1"
    using Cons.prems
    by (cases "post_comments x") (simp_all add: date_now_def batch_update_def ops_for_def)
  have p: "\<not> committed ?b2" "Suc ops + length docs < MAX_BATCH_SIZE" "\<forall>k. clock ?s1 k = t"
    using Cons.prems by simp_all
  from Cons.IH [OF p] obtain k where
    "repair_loop docs u n p ?b2 (Suc ops) ?s1
     = (Inr (?b2\<lparr>staged := staged ?b2 @ concat (map (ops_for u n p t) docs)\<rparr>,
             Suc ops + length docs), ?s1\<lparr>ticks := ticks ?s1 + k\<rparr>)" by blast
  with st have "repair_loop (x # docs) u n p b ops s
     = (Inr (b\<lparr>staged := staged b @ concat (map (ops_for u n p t) (x # docs))\<rparr>,
             ops + length (x # docs)), s\<lparr>ticks := ticks s + Suc k\<rparr>)" by simp
  then show ?case by blast
qed

lemma fold_ops_for_other:
  "post_id y \<noteq> post_id x \<Longrightarrow> fold apply_op (ops_for u n p t x) y = y"
  by (cases "post_comments x") (simp_all add: ops_for_def)

lemma fold_ops_for_self:
  "fold apply_op (ops_for u n p t x) x = repaired u n p t x"
  by (cases "post_comments x") (simp_all add: ops_for_def repaired_def)

lemma fold_ops_untargeted:
  "post_id y \<notin> post_id ` set docs \<Longrightarrow> fold apply_op (concat (map (ops_for u n p t) docs)) y = y"
  by (induction docs) (simp_all add: fold_ops_for_other)

lemma post_id_repaired [simp]: "post_id (repaired u n p t x) = post_id x"
  by (simp add: repaired_def)

lemma fold_ops_targeted:
  "distinct (map post_id docs) \<Longrightarrow> y \<in> set docs \<Longrightarrow>
   fold apply_op (concat (map (ops_for u n p t) docs)) y = repaired u n p t y"
proof (induction docs)
  case Nil
  then show ?case by simp
next
  case (Cons x docs)
  show ?case
  proof (cases "y = x")
    case True
    from Cons.prems(1) have "post_id (repaired u n p t x) \<notin> post_id ` set docs" by simp
    then show ?thesis using True by (simp add: fold_ops_for_self fold_ops_untargeted)
  next
    case False
    with Cons.prems have y: "y \<in> set docs" by simp
    from Cons.prems(1) have "post_id x \<notin> post_id ` set docs" by simp
    with y have "post_id y \<noteq> post_id x" by (metis imageI)
    with Cons.IH y Cons.prems(1) show ?thesis by (simp add: fold_ops_for_other)
  qed
qed

lemma distinct_map_filter': "distinct (map f xs) \<Longrightarrow> distinct (map f (filter P xs))"
  by (induction xs) auto

lemma commit_effect:
  assumes "distinct (map post_id ps)"
  shows "map (fold apply_op (concat (map (ops_for u n p t) (filter (\<lambda>x. post_authorId x = u) ps)))) ps
     = map (\<lambda>y. if post_authorId y = u then repaired u n p t y else y) ps"
proof (rule map_cong [OF refl])
  fix y assume y: "y \<in> set ps"
  let ?docs = "filter (\<lambda>x. post_authorId x = u) ps"
  have d: "distinct (map post_id ?docs)" using assms by (rule distinct_map_filter')
  show "fold apply_op (concat (map (ops_for u n p t) ?docs)) y
      = (if post_authorId y = u then repaired u n p t y else y)"
  proof (cases "post_authorId y = u")
    case True
    with y have "y \<in> set ?docs" by simp
    with d True show ?thesis by (simp add: fold_ops_targeted)
  next
    case False
    have "post_id y \<notin> post_id ` set ?docs"
    proof
      assume "post_id y \<in> post_id ` set ?docs"
      then obtain x where x: "x \<in> set ps" "post_authorId x = u" "post_id x = post_id y" by auto
      from assms x(1) y x(3) have "x = y" by (meson distinct_map inj_onD)
      with x(2) False show False by simp
    qed
    with False show ?thesis by (simp add: fold_ops_untargeted)
  qed
qed

lemma op_target_ops_for: "w \<in> set (ops_for u n p t x) \<Longrightarrow> op_target w = post_id x"
  by (cases "post_comments x") (auto simp: ops_for_def)

subsection \<open>What the repair does write\<close>

text \<open>
  In a quiet run at time \<open>t\<close>, with the ids of the collection \<^verbatim>\<open>posts\<close> distinct and
  fewer than \<open>MAX_BATCH_SIZE\<close> posts of the user, the repair completes without an error:
  every post of the user gets the new name and avatar, the time \<open>t\<close> as \<open>updatedAt\<close>,
  and its comments by the user rewritten, its comments by others being kept; every post
  of another author is left as it is, the user's comments inside it included; and the
  cache has no entry for the user.
\<close>

theorem repair_effect:
  assumes "calm t s" "distinct (map post_id (posts s))"
    "length (filter (\<lambda>x. post_authorId x = u) (posts s)) < MAX_BATCH_SIZE"
  shows "\<exists>s'. updateUserContentReferences u n p s = (Inr (), s')
     \<and> posts s' = map (\<lambda>y. if post_authorId y = u then repaired u n p t y else y) (posts s)
     \<and> users s' = users s \<and> map_of (cache s') u = None"
proof -
  let ?s1 = "s\<lparr>calls := calls s @ [QueryPostsByAuthor u]\<rparr>"
  let ?docs = "filter (\<lambda>x. post_authorId x = u) (posts s)"
  let ?ops = "concat (map (ops_for u n p t) ?docs)"
  have db: "db_ok s" and nf: "\<forall>k. \<not> faults s k" and cl: "\<forall>k. clock ?s1 k = t"
    using assms(1) by (simp_all add: calm_def)
  have nc: "\<not> committed writeBatch" by (simp add: writeBatch_def)
  from assms(3) have sm: "0 + length ?docs < MAX_BATCH_SIZE" by simp
  from repair_loop_staged [OF nc sm cl, of u n p] obtain k where
    rl: "repair_loop ?docs u n p writeBatch 0 ?s1
      = (Inr (writeBatch\<lparr>staged := staged writeBatch @ ?ops\<rparr>, 0 + length ?docs),
         ?s1\<lparr>ticks := ticks ?s1 + k\<rparr>)" by blast
  let ?s2 = "?s1\<lparr>ticks := ticks ?s1 + k\<rparr>"
  let ?b = "writeBatch\<lparr>staged := staged writeBatch @ ?ops\<rparr>"
  show ?thesis
  proof (cases "?docs = []")
    case True
    then have same: "map (\<lambda>y. if post_authorId y = u then repaired u n p t y else y) (posts s) = posts s"
      by (intro map_idI) (auto simp: filter_empty_conv)
    have "updateUserContentReferences u n p s = (Inr (), invalidateUser u ?s2)"
      using db nf rl True by (simp add: updateUserContentReferences_def round_trip_def)
    with same show ?thesis by (simp add: invalidateUser_def delete_conv')
  next
    case False
    have tg: "list_all (\<lambda>w. op_target w \<in> set (map post_id (posts ?s2))) (staged ?b)"
      by (auto simp: list_all_iff writeBatch_def dest!: op_target_ops_for)
    let ?s3 = "?s2\<lparr>calls := calls ?s2 @ [Commit (staged ?b)],
                   posts := map (\<lambda>x. fold apply_op (staged ?b) x) (posts ?s2)\<rparr>"
    have bc: "batch_commit ?b ?s2 = (Inr (?b\<lparr>committed := True\<rparr>), ?s3)"
      using nf tg by (simp add: batch_commit_def round_trip_def writeBatch_def)
    have "updateUserContentReferences u n p s = (Inr (), invalidateUser u ?s3)"
      using db nf rl False bc
      by (simp add: updateUserContentReferences_def round_trip_def)
    moreover have "posts ?s3 = map (\<lambda>y. if post_authorId y = u then repaired u n p t y else y) (posts s)"
      using commit_effect [OF assms(2), of u n p t] by (simp add: writeBatch_def)
    ultimately show ?thesis by (simp add: invalidateUser_def delete_conv')
  qed
qed

theorem repair_effect_witness:
  "calm 0 world_three_posts \<and> distinct (map post_id (posts world_three_posts))
   \<and> fst (updateUserContentReferences ''U'' ''USER2'' ''new.png'' world_three_posts) = Inr ()
   \<and> posts (snd (updateUserContentReferences ''U'' ''USER2'' ''new.png'' world_three_posts))
       = [repaired ''U'' ''USER2'' ''new.png'' 0
            (post_by ''p1'' ''U'' ''Alice'' (Some [comment_by ''c2'' ''p1'' ''V'' ''Bob''])),
          repaired ''U'' ''USER2'' ''new.png'' 0 (post_by ''p2'' ''U'' ''Alice'' (Some [])),
          post_by ''p3'' ''V'' ''Bob'' (Some [comment_by ''c1'' ''p3'' ''U'' ''Alice''])]"
proof -
  have c: "calm 0 world_three_posts"
    by (simp add: calm_def world_three_posts_def world_at_def)
  have d: "distinct (map post_id (posts world_three_posts))"
    by (simp add: world_three_posts_def post_by_def)
  have l: "length (filter (\<lambda>x. post_authorId x = ''U'') (posts world_three_posts)) < MAX_BATCH_SIZE"
    by (simp add: world_three_posts_def post_by_def MAX_BATCH_SIZE_def)
  from repair_effect [OF c d l, of "''USER2''" "''new.png''"] obtain s' where
    r: "updateUserContentReferences ''U'' ''USER2'' ''new.png'' world_three_posts = (Inr (), s')"
       "posts s' = map (\<lambda>y. if post_authorId y = ''U'' then repaired ''U'' ''USER2'' ''new.png'' 0 y else y)
          (posts world_three_posts)"
    by blast
  have "posts s'
       = [repaired ''U'' ''USER2'' ''new.png'' 0
            (post_by ''p1'' ''U'' ''Alice'' (Some [comment_by ''c2'' ''p1'' ''V'' ''Bob''])),
          repaired ''U'' ''USER2'' ''new.png'' 0 (post_by ''p2'' ''U'' ''Alice'' (Some [])),
          post_by ''p3'' ''V'' ''Bob'' (Some [comment_by ''c1'' ''p3'' ''U'' ''Alice''])]"
    unfolding r(2) by (simp add: world_three_posts_def post_by_def)
  with c d r(1) show ?thesis by simp
qed

subsection \<open>Invalidation and clearing\<close>

text \<open>
  \<^verbatim>\<open>invalidateUser\<close> removes the entry of the id and no other, and is idempotent;
  on an id without an entry it changes no lookup. \<^verbatim>\<open>clearCache\<close> leaves the map
  empty. Neither touches anything but the map.
\<close>

theorem invalidate_and_clear:
  "map_of (cache (invalidateUser u s)) u = None
   \<and> (\<forall>k. k \<noteq> u \<longrightarrow> map_of (cache (invalidateUser u s)) k = map_of (cache s) k)
   \<and> invalidateUser u (invalidateUser u s) = invalidateUser u s
   \<and> (map_of (cache s) u = None \<longrightarrow> invalidateUser u s = s)
   \<and> cache (clearCache s) = []
   \<and> invalidateUser u s = s\<lparr>cache := cache (invalidateUser u s)\<rparr>
   \<and> clearCache s = s\<lparr>cache := []\<rparr>"
proof -
  have "map_of (cache s) u = None \<Longrightarrow> AList.delete u (cache s) = cache s"
    by (simp add: map_of_eq_None_iff)
  then show ?thesis
    by (simp add: invalidateUser_def clearCache_def delete_conv' delete_idem)
qed

theorem invalidate_and_clear_witness:
  "map_of (cache (world_at 0)) ''U'' = Some \<lparr>user = alice_old, timestamp = 0\<rparr>
   \<and> map_of (cache (invalidateUser ''U'' (world_at 0))) ''U'' = None
   \<and> map_of (cache (invalidateUser ''V'' (world_at 0))) ''U''
       = Some \<lparr>user = alice_old, timestamp = 0\<rparr>
   \<and> invalidateUser ''V'' (world_at 0) = world_at 0
   \<and> cache (clearCache (world_at 0)) = []"
  using invalidate_and_clear [of "''U''" "world_at 0"] invalidate_and_clear [of "''V''" "world_at 0"]
  by (simp add: world_at_def)

subsection \<open>The chunks of \<^verbatim>\<open>batchGetUsers\<close>\<close>

lemma batches_from_sizes:
  "list_all (\<lambda>b. 0 < length b \<and> length b \<le> 10) (batches_from i uids)"
proof (induction i uids rule: batches_from.induct)
  case (1 i uids)
  show ?case
  proof (cases "i < length uids")
    case True
    with 1 show ?thesis by (subst batches_from.simps) simp
  next
    case False
    then show ?thesis by (subst batches_from.simps) simp
  qed
qed

text \<open>
  The id lists of the queries are the given list cut into consecutive pieces: put
  together they are the list, none is empty and none has more than ten ids.
\<close>

theorem batches_cover_in_tens:
  "concat (batches_from 0 uids) = uids
   \<and> list_all (\<lambda>b. 0 < length b \<and> length b \<le> 10) (batches_from 0 uids)"
  using batches_from_sizes [of 0 uids] by (simp add: concat_batches_from)

end
